theory Spec2Isabelle
  imports Main "HOL-Library.Product_Lexorder" "HOL-Library.List_Lexorder"
begin

section \<open>Numbers, positions and the grid environment (gridEnv.py)\<close>

text \<open>
  A cell of the grid holds a Python number: an \<open>int\<close> (a digit of the map file, or 1) or
  \<open>float('inf')\<close> for an impassable cell. \<open>Fin n\<close> is the int \<open>n\<close>, \<open>PInf\<close> is
  \<open>float('inf')\<close>. Addition and comparison are Python's: \<open>inf\<close> absorbs every finite
  number and is larger than each of them.
\<close>

datatype cost = Fin int | PInf

instantiation cost :: "{comm_monoid_add, linorder}"
begin

definition zero_cost :: cost where
  "zero_cost = Fin 0"

fun plus_cost :: "cost \<Rightarrow> cost \<Rightarrow> cost" where
  "plus_cost (Fin a) (Fin b) = Fin (a + b)"
| "plus_cost PInf _ = PInf"
| "plus_cost _ PInf = PInf"

fun less_eq_cost :: "cost \<Rightarrow> cost \<Rightarrow> bool" where
  "less_eq_cost (Fin a) (Fin b) = (a \<le> b)"
| "less_eq_cost _ PInf = True"
| "less_eq_cost PInf (Fin _) = False"

fun less_cost :: "cost \<Rightarrow> cost \<Rightarrow> bool" where
  "less_cost (Fin a) (Fin b) = (a < b)"
| "less_cost (Fin _) PInf = True"
| "less_cost PInf _ = False"

instance
proof
  fix x y z :: cost
  show "(x < y) = (x \<le> y \<and> \<not> y \<le> x)"
    by (cases x; cases y) auto
  show "x \<le> x"
    by (cases x) auto
  show "x \<le> y \<Longrightarrow> y \<le> z \<Longrightarrow> x \<le> z"
    by (cases x; cases y; cases z) auto
  show "x \<le> y \<Longrightarrow> y \<le> x \<Longrightarrow> x = y"
    by (cases x; cases y) auto
  show "x \<le> y \<or> y \<le> x"
    by (cases x; cases y) auto
  show "x + y + z = x + (y + z)"
    by (cases x; cases y; cases z) auto
  show "x + y = y + x"
    by (cases x; cases y) auto
  show "0 + x = x"
    by (cases x) (auto simp: zero_cost_def)
qed

end

instance cost :: ordered_comm_monoid_add
proof
  fix a b c :: cost
  show "a \<le> b \<Longrightarrow> c + a \<le> c + b"
    by (cases a; cases b; cases c) auto
qed

type_synonym pos = "int \<times> int"

text \<open>
  The fields of \<open>GridEnvironment\<close>. \<open>dynamic_obstacles\<close> is a dict whose values are all
  \<open>True\<close> and of which only the keys are ever read, so it is the set of its keys.
\<close>

record grid_environment =
  grid :: "cost list list"
  height :: nat
  width :: nat
  start_pos :: "pos option"
  goal_pos :: "pos option"
  dynamic_obstacles :: "pos set"

text \<open>
  What \<open>__init__\<close> establishes for a rectangular map file: \<open>height = len(grid)\<close>,
  \<open>width = len(grid[0])\<close>, every row as long as the first. On such an environment no
  read \<open>grid[y][x]\<close> at an in-bounds position is out of range.
\<close>

definition rectangular :: "grid_environment \<Rightarrow> bool" where
  "rectangular env \<longleftrightarrow>
     grid env \<noteq> [] \<and> height env = length (grid env) \<and>
     (\<forall>row \<in> set (grid env). length row = width env)"

text \<open>Every finite cell cost is at least \<open>k\<close> (\<open>load_grid\<close> gives digits: \<open>k = 0\<close>).\<close>

definition costs_at_least :: "int \<Rightarrow> grid_environment \<Rightarrow> bool" where
  "costs_at_least k env \<longleftrightarrow>
     (\<forall>row \<in> set (grid env). \<forall>c \<in> set row. c = PInf \<or> Fin k \<le> c)"

fun is_valid :: "grid_environment \<Rightarrow> pos \<Rightarrow> bool" where
  "is_valid env (y, x) \<longleftrightarrow> 0 \<le> y \<and> y < int (height env) \<and> 0 \<le> x \<and> x < int (width env)"

text \<open>
  \<open>self.grid[pos[0]][pos[1]]\<close>. The searches read it only at positions that passed
  \<open>is_valid\<close>, where the indices are non-negative and, on a rectangular grid, in range.
\<close>

fun get_cost :: "grid_environment \<Rightarrow> pos \<Rightarrow> cost" where
  "get_cost env (y, x) = grid env ! nat y ! nat x"

fun is_passable :: "grid_environment \<Rightarrow> pos \<Rightarrow> bool" where
  "is_passable env (y, x) \<longleftrightarrow> grid env ! nat y ! nat x \<noteq> PInf"

fun get_neighbors :: "grid_environment \<Rightarrow> pos \<Rightarrow> pos list" where
  "get_neighbors env (y, x) =
     filter (\<lambda>neighbor_pos. is_valid env neighbor_pos \<and> is_passable env neighbor_pos)
       (map (\<lambda>(dy, dx). (y + dy, x + dx)) [(0, 1), (0, -1), (1, 0), (-1, 0)])"

definition is_dynamic_obstacle_at :: "grid_environment \<Rightarrow> pos \<Rightarrow> nat \<Rightarrow> bool" where
  "is_dynamic_obstacle_at env p time_step \<longleftrightarrow> p \<in> dynamic_obstacles env \<and> time_step \<ge> 5"

fun update_grid_with_obstacle :: "grid_environment \<Rightarrow> pos \<Rightarrow> grid_environment" where
  "update_grid_with_obstacle env (y, x) =
     (if (y, x) \<in> dynamic_obstacles env
      then env\<lparr>grid := (grid env)[nat y := (grid env ! nat y)[nat x := PInf]]\<rparr>
      else env)"

section \<open>The searches (search_algorithms.py)\<close>

text \<open>
  \<open>heapq\<close> keeps the frontier as a binary heap of tuples, compared as Python compares
  tuples: lexicographically, positions as pairs and paths as lists. That order is total
  and two entries are equal in it only when they are the same tuple, so which entry
  \<open>heappop\<close> returns does not depend on the layout of the heap: it is the least entry.
  The frontier is therefore a list, \<open>heappush\<close> appends and \<open>heappop\<close> removes the
  least entry.
\<close>

definition heappush :: "'a list \<Rightarrow> 'a \<Rightarrow> 'a list" where
  "heappush frontier e = frontier @ [e]"

definition heappop :: "('a::linorder) list \<Rightarrow> 'a \<times> 'a list" where
  "heappop frontier = (min_list frontier, remove1 (min_list frontier) frontier)"

text \<open>
  A returned triple \<open>(path, cost, nodes_expanded)\<close>; \<open>path\<close> is \<open>None\<close> when the search
  fails.
\<close>

type_synonym result = "pos list option \<times> cost \<times> nat"

text \<open>
  A \<open>while\<close> loop with a \<open>return\<close> inside: the body maps the loop's variables either to
  the returned value (\<open>Inl\<close>) or to their values after the iteration (\<open>Inr\<close>). The loop
  may run forever, which is the value \<open>None\<close>.
\<close>

partial_function (option) while_loop :: "('s \<Rightarrow> 'r + 's) \<Rightarrow> 's \<Rightarrow> 'r option" where
  "while_loop body s = (case body s of Inl r \<Rightarrow> Some r | Inr s' \<Rightarrow> while_loop body s')"

declare while_loop.simps [code]

subsection \<open>uniform_cost_search\<close>

type_synonym ucs_entry = "cost \<times> pos \<times> pos list"

type_synonym 'e search_state = "'e list \<times> (pos \<rightharpoonup> cost) \<times> nat"

text \<open>The body of \<open>for next_pos in environment.get_neighbors(current_pos)\<close>.\<close>

definition ucs_visit ::
  "grid_environment \<Rightarrow> cost \<Rightarrow> pos list \<Rightarrow> pos \<Rightarrow>
   ucs_entry list \<times> (pos \<rightharpoonup> cost) \<Rightarrow> ucs_entry list \<times> (pos \<rightharpoonup> cost)" where
  "ucs_visit env cost path next_pos = (\<lambda>(frontier, visited).
     let move_cost = get_cost env next_pos;
         new_cost = cost + move_cost
     in if (case visited next_pos of None \<Rightarrow> True | Some c \<Rightarrow> new_cost < c)
        then (heappush frontier (new_cost, next_pos, path @ [next_pos]),
              visited(next_pos \<mapsto> new_cost))
        else (frontier, visited))"

text \<open>One turn of \<open>while frontier:\<close>, with the \<open>return\<close> after the loop as its exit.\<close>

definition ucs_body ::
  "grid_environment \<Rightarrow> pos \<Rightarrow> ucs_entry search_state \<Rightarrow> result + ucs_entry search_state" where
  "ucs_body env goal = (\<lambda>(frontier, visited, nodes_expanded).
     if frontier = [] then Inl (None, Fin (-1), nodes_expanded)
     else
       let ((cost, current_pos, path), frontier') = heappop frontier;
           nodes_expanded' = nodes_expanded + 1
       in if current_pos = goal then Inl (Some path, cost, nodes_expanded')
          else
            let (frontier'', visited') =
                  fold (ucs_visit env cost path) (get_neighbors env current_pos)
                    (frontier', visited)
            in Inr (frontier'', visited', nodes_expanded'))"

definition uniform_cost_search :: "grid_environment \<Rightarrow> pos \<Rightarrow> pos \<Rightarrow> result option" where
  "uniform_cost_search env start goal =
     while_loop (ucs_body env goal)
       ([(Fin 0, start, [start])], [start \<mapsto> Fin 0], 0)"

subsection \<open>a_star_search\<close>

fun manhattan_distance :: "pos \<Rightarrow> pos \<Rightarrow> int" where
  "manhattan_distance (y1, x1) (y2, x2) = \<bar>y1 - y2\<bar> + \<bar>x1 - x2\<bar>"

type_synonym astar_entry = "cost \<times> cost \<times> pos \<times> pos list"

definition astar_visit ::
  "grid_environment \<Rightarrow> pos \<Rightarrow> cost \<Rightarrow> pos list \<Rightarrow> pos \<Rightarrow>
   astar_entry list \<times> (pos \<rightharpoonup> cost) \<Rightarrow> astar_entry list \<times> (pos \<rightharpoonup> cost)" where
  "astar_visit env goal g_cost path next_pos = (\<lambda>(frontier, visited).
     let move_cost = get_cost env next_pos;
         new_g_cost = g_cost + move_cost
     in if (case visited next_pos of None \<Rightarrow> True | Some c \<Rightarrow> new_g_cost < c)
        then
          let new_f_cost = new_g_cost + Fin (manhattan_distance next_pos goal)
          in (heappush frontier (new_f_cost, new_g_cost, next_pos, path @ [next_pos]),
              visited(next_pos \<mapsto> new_g_cost))
        else (frontier, visited))"

definition astar_body ::
  "grid_environment \<Rightarrow> pos \<Rightarrow> astar_entry search_state \<Rightarrow> result + astar_entry search_state"
  where
  "astar_body env goal = (\<lambda>(frontier, visited, nodes_expanded).
     if frontier = [] then Inl (None, Fin (-1), nodes_expanded)
     else
       let ((f_cost, g_cost, current_pos, path), frontier') = heappop frontier;
           nodes_expanded' = nodes_expanded + 1
       in if current_pos = goal then Inl (Some path, g_cost, nodes_expanded')
          else
            let (frontier'', visited') =
                  fold (astar_visit env goal g_cost path) (get_neighbors env current_pos)
                    (frontier', visited)
            in Inr (frontier'', visited', nodes_expanded'))"

definition a_star_search :: "grid_environment \<Rightarrow> pos \<Rightarrow> pos \<Rightarrow> result option" where
  "a_star_search env start goal =
     while_loop (astar_body env goal)
       ([(Fin 0 + Fin (manhattan_distance start goal), Fin 0, start, [start])],
        [start \<mapsto> Fin 0], 0)"

subsection \<open>local_search_replanning\<close>

datatype error = IndexError

text \<open>
  The \<open>for i in range(len(path) - 1)\<close> loop. \<open>range\<close> is evaluated once, before the
  first iteration, so the loop runs through the indices it was given whatever the body
  assigns to \<open>i\<close> or to \<open>path\<close>: the assignment \<open>i = -1\<close> changes nothing that is
  read afterwards. \<open>path[i]\<close> and \<open>path[i+1]\<close> raise \<open>IndexError\<close> past the end of
  the current path. The environment is mutated by \<open>update_grid_with_obstacle\<close>, so it
  is passed along and returned. A replanning search that does not return makes the whole
  run not return (\<open>None\<close>).
\<close>

fun replan_walk ::
  "pos \<Rightarrow> nat list \<Rightarrow> grid_environment \<Rightarrow> pos list \<Rightarrow> cost \<Rightarrow> nat \<Rightarrow>
   (error + result \<times> grid_environment) option" where
  "replan_walk goal [] env path total_path_cost total_nodes_expanded =
     Some (Inr ((Some path, total_path_cost, total_nodes_expanded), env))"
| "replan_walk goal (i # indices) env path total_path_cost total_nodes_expanded =
     (if length path \<le> i + 1 then Some (Inl IndexError)
      else
        let current_pos = path ! i;
            next_pos = path ! (i + 1)
        in if is_dynamic_obstacle_at env next_pos (i + 1) then
             let env' = update_grid_with_obstacle env next_pos
             in (case a_star_search env' current_pos goal of
                   None \<Rightarrow> None
                 | Some (new_path, new_cost, new_expanded) \<Rightarrow>
                     (case new_path of
                        Some (p # ps) \<Rightarrow>
                          replan_walk goal indices env' (take i path @ (p # ps))
                            (total_path_cost + new_cost + get_cost env' next_pos)
                            (total_nodes_expanded + new_expanded)
                      | _ \<Rightarrow> Some (Inr ((None, Fin (-1), total_nodes_expanded), env'))))
           else
             replan_walk goal indices env path
               (total_path_cost + get_cost env next_pos) total_nodes_expanded)"

definition local_search_replanning ::
  "grid_environment \<Rightarrow> pos \<Rightarrow> pos \<Rightarrow> (error + result \<times> grid_environment) option" where
  "local_search_replanning env start goal =
     (case a_star_search env start goal of
        None \<Rightarrow> None
      | Some (path, path_cost, nodes_expanded) \<Rightarrow>
          (case path of
             Some (p # ps) \<Rightarrow>
               replan_walk goal [0 ..< length (p # ps) - 1] env (p # ps) (Fin 0) nodes_expanded
           | _ \<Rightarrow> Some (Inr ((None, Fin (-1), nodes_expanded), env))))"

section \<open>Paths and their cost\<close>

text \<open>A walk: a non-empty sequence of positions, each one a neighbour of the one before.\<close>

fun walk :: "grid_environment \<Rightarrow> pos list \<Rightarrow> bool" where
  "walk env [] = False"
| "walk env [p] = True"
| "walk env (p # q # ps) = (q \<in> set (get_neighbors env p) \<and> walk env (q # ps))"

definition route :: "grid_environment \<Rightarrow> pos \<Rightarrow> pos \<Rightarrow> pos list \<Rightarrow> bool" where
  "route env start goal path \<longleftrightarrow> walk env path \<and> hd path = start \<and> last path = goal"

text \<open>The sum of \<open>get_cost\<close> over the positions of a path after the first.\<close>

definition path_cost :: "grid_environment \<Rightarrow> pos list \<Rightarrow> cost" where
  "path_cost env path = sum_list (map (get_cost env) (tl path))"

section \<open>Example maps\<close>

text \<open>
  Environments as the searches receive them, drawn in the notation of the map files. A
  corridor of seven cells with \<open>(0, 5)\<close> registered as a dynamic obstacle, and the same
  corridor with a detour around the obstacle through a second row:
  \<^verbatim>\<open>S1111DG\<close> and \<^verbatim>\<open>S1111DG / ####111\<close>.
\<close>

definition env_corridor :: grid_environment where
  "env_corridor =
     \<lparr>grid = [[Fin 1, Fin 1, Fin 1, Fin 1, Fin 1, Fin 1, Fin 1]],
      height = 1, width = 7, start_pos = Some (0, 0), goal_pos = Some (0, 6),
      dynamic_obstacles = {(0, 5)}\<rparr>"

definition env_detour :: grid_environment where
  "env_detour =
     \<lparr>grid = [[Fin 1, Fin 1, Fin 1, Fin 1, Fin 1, Fin 1, Fin 1],
              [PInf, PInf, PInf, PInf, Fin 1, Fin 1, Fin 1]],
      height = 2, width = 7, start_pos = Some (0, 0), goal_pos = Some (0, 6),
      dynamic_obstacles = {(0, 5)}\<rparr>"

text \<open>Three rows of three cells of cost 1, no obstacle.\<close>

definition env_open :: grid_environment where
  "env_open =
     \<lparr>grid = [[Fin 1, Fin 1, Fin 1], [Fin 1, Fin 1, Fin 1], [Fin 1, Fin 1, Fin 1]],
      height = 3, width = 3, start_pos = Some (0, 0), goal_pos = Some (2, 2),
      dynamic_obstacles = {}\<rparr>"

text \<open>A corridor of three cells whose middle cell is a wall: \<^verbatim>\<open>S#G\<close>.\<close>

definition env_blocked :: grid_environment where
  "env_blocked =
     \<lparr>grid = [[Fin 1, PInf, Fin 1]],
      height = 1, width = 3, start_pos = Some (0, 0), goal_pos = Some (0, 2),
      dynamic_obstacles = {}\<rparr>"

text \<open>A single passable cell and no dynamic obstacle.\<close>

definition env_single :: grid_environment where
  "env_single =
     \<lparr>grid = [[Fin 1]], height = 1, width = 1, start_pos = None, goal_pos = None,
      dynamic_obstacles = {}\<rparr>"

text \<open>What a run returns, without the environment it leaves behind.\<close>

definition returned :: "(error + result \<times> grid_environment) option \<Rightarrow> (error + result) option" where
  "returned r = map_option (map_sum id fst) r"

section \<open>Invariants of the search loops\<close>

text \<open>
  The predicates below speak about the entries of a frontier as triples (cost, position,
  path): the entries of \<open>uniform_cost_search\<close> as they are, those of
  \<open>a_star_search\<close> without their first component.
\<close>

text \<open>An entry of \<open>a_star_search\<close> without its priority.\<close>

definition g_entry :: "astar_entry \<Rightarrow> ucs_entry" where
  "g_entry = (\<lambda>(f_cost, g_cost, p, path). (g_cost, p, path))"

text \<open>
  \<open>rest\<close> is the frontier \<open>F\<close> with one occurrence of its entry \<open>e\<close> taken out, as far as
  the invariants need to know.
\<close>

definition pops :: "ucs_entry list \<Rightarrow> ucs_entry \<Rightarrow> ucs_entry list \<Rightarrow> bool" where
  "pops F e rest \<longleftrightarrow>
     e \<in> set F \<and> set rest \<subseteq> set F \<and> set F \<subseteq> insert e (set rest) \<and> Suc (length rest) = length F"

text \<open>
  One iteration that goes on: an entry not at the goal is popped and its neighbours are
  looked at in turn.
\<close>

definition search_step ::
  "grid_environment \<Rightarrow> pos \<Rightarrow> ucs_entry list \<times> (pos \<rightharpoonup> cost) \<Rightarrow>
   ucs_entry list \<times> (pos \<rightharpoonup> cost) \<Rightarrow> bool" where
  "search_step env goal S S' \<longleftrightarrow>
     (\<exists>g p path rest. pops (fst S) (g, p, path) rest \<and> p \<noteq> goal \<and>
        S' = fold (ucs_visit env g path) (get_neighbors env p) (rest, snd S))"

text \<open>The priority of every entry of \<open>a_star_search\<close> is its cost plus the heuristic.\<close>

definition fcosts_ok :: "pos \<Rightarrow> astar_entry list \<Rightarrow> bool" where
  "fcosts_ok goal F \<longleftrightarrow>
     (\<forall>(f, g, p, path) \<in> set F. f = g + Fin (manhattan_distance p goal))"

text \<open>
  Every entry carries a path from the start to its position, and the cost of that path.
\<close>

definition entries_ok :: "grid_environment \<Rightarrow> pos \<Rightarrow> ucs_entry list \<Rightarrow> bool" where
  "entries_ok env start F \<longleftrightarrow>
     (\<forall>(g, p, path) \<in> set F. route env start p path \<and> g = path_cost env path)"

text \<open>
  A neighbour improves on the visited map when it has no recorded cost, or the cost of
  reaching it through the popped entry is strictly lower than the recorded one.
\<close>

definition improves :: "grid_environment \<Rightarrow> (pos \<rightharpoonup> cost) \<Rightarrow> cost \<Rightarrow> pos \<Rightarrow> bool" where
  "improves env visited cost next_pos \<longleftrightarrow>
     (case visited next_pos of None \<Rightarrow> True | Some c \<Rightarrow> cost + get_cost env next_pos < c)"

text \<open>
  Every recorded cost of the first map is still recorded in the second, unchanged or
  strictly lower.
\<close>

definition only_improved :: "(pos \<rightharpoonup> cost) \<Rightarrow> (pos \<rightharpoonup> cost) \<Rightarrow> bool" where
  "only_improved visited visited' \<longleftrightarrow>
     (\<forall>p c. visited p = Some c \<longrightarrow> (\<exists>c'. visited' p = Some c' \<and> (c' = c \<or> c' < c)))"

text \<open>The visited map after the neighbours \<open>qs\<close> of an entry of cost \<open>g\<close> were looked at.\<close>

definition relaxed :: "grid_environment \<Rightarrow> (pos \<rightharpoonup> cost) \<Rightarrow> cost \<Rightarrow> pos list \<Rightarrow> (pos \<rightharpoonup> cost)" where
  "relaxed env visited cost qs =
     (\<lambda>r. if r \<in> set qs \<and> improves env visited cost r then Some (cost + get_cost env r)
          else visited r)"

text \<open>A finite cost that is not negative.\<close>

definition nonneg :: "cost \<Rightarrow> bool" where
  "nonneg c \<longleftrightarrow> (\<exists>k\<ge>0. c = Fin k)"

text \<open>
  What the termination argument keeps of a search state: the costs in the frontier and in
  the visited map are finite and not negative, and finitely many positions are visited.
\<close>

definition good :: "ucs_entry list \<times> (pos \<rightharpoonup> cost) \<Rightarrow> bool" where
  "good S \<longleftrightarrow>
     (\<forall>(g, p, path) \<in> set (fst S). nonneg g) \<and> (\<forall>p c. snd S p = Some c \<longrightarrow> nonneg c)
     \<and> finite (dom (snd S))"

text \<open>A recorded cost as a natural number.\<close>

definition weight :: "cost \<Rightarrow> nat" where
  "weight c = (case c of Fin k \<Rightarrow> nat k | PInf \<Rightarrow> 0)"

text \<open>
  The measure of a visited map: the number of in-bounds positions not yet visited, then
  the sum of the recorded costs.
\<close>

definition vmeasure :: "grid_environment \<Rightarrow> (pos \<rightharpoonup> cost) \<Rightarrow> nat \<times> nat" where
  "vmeasure env vis =
     (card ({p. is_valid env p} - dom vis), (\<Sum>p \<in> dom vis. weight (the (vis p))))"

text \<open>The measure of a search state: that of its visited map, then the length of the frontier.\<close>

definition smeasure :: "grid_environment \<Rightarrow> ucs_entry list \<times> (pos \<rightharpoonup> cost) \<Rightarrow> (nat \<times> nat) \<times> nat" where
  "smeasure env S = (vmeasure env (snd S), length (fst S))"

text \<open>The frontier holds an entry for \<open>r\<close> with the cost recorded for \<open>r\<close>.\<close>

definition has_entry :: "ucs_entry list \<Rightarrow> (pos \<rightharpoonup> cost) \<Rightarrow> pos \<Rightarrow> bool" where
  "has_entry F vis r \<longleftrightarrow> (\<exists>c path. vis r = Some c \<and> (c, r, path) \<in> set F)"

text \<open>
  Every neighbour of \<open>r\<close> in \<open>D\<close> has a recorded cost no higher than the recorded cost
  of \<open>r\<close> plus its own cost.
\<close>

definition closed_on :: "grid_environment \<Rightarrow> (pos \<rightharpoonup> cost) \<Rightarrow> pos set \<Rightarrow> pos \<Rightarrow> bool" where
  "closed_on env vis D r \<longleftrightarrow>
     (\<exists>v. vis r = Some v \<and> (\<forall>q \<in> D. \<exists>c. vis q = Some c \<and> c \<le> v + get_cost env q))"

text \<open>
  The invariant behind optimality: each visited position either has a frontier entry
  with its recorded cost, or is not the goal and has been expanded at its recorded cost.
\<close>

definition settled :: "grid_environment \<Rightarrow> pos \<Rightarrow> ucs_entry list \<times> (pos \<rightharpoonup> cost) \<Rightarrow> bool" where
  "settled env goal S \<longleftrightarrow>
     (\<forall>r \<in> dom (snd S). has_entry (fst S) (snd S) r
        \<or> (r \<noteq> goal \<and> closed_on env (snd S) (set (get_neighbors env r)) r))"

text \<open>The same while the neighbours of the popped entry \<open>(g, p)\<close> are looked at; \<open>D\<close> are those done.\<close>

definition settling ::
  "grid_environment \<Rightarrow> pos \<Rightarrow> cost \<Rightarrow> pos \<Rightarrow> pos set \<Rightarrow> ucs_entry list \<times> (pos \<rightharpoonup> cost) \<Rightarrow> bool"
  where
  "settling env goal g p D S \<longleftrightarrow>
     (\<forall>r \<in> dom (snd S). has_entry (fst S) (snd S) r
        \<or> (r \<noteq> goal \<and> closed_on env (snd S) (set (get_neighbors env r)) r)
        \<or> (r = p \<and> p \<noteq> goal \<and> snd S p = Some g \<and> closed_on env (snd S) D p))"

text \<open>The recorded cost of the start is at most 0.\<close>

definition start_low :: "pos \<Rightarrow> (pos \<rightharpoonup> cost) \<Rightarrow> bool" where
  "start_low start vis \<longleftrightarrow> (\<exists>c. vis start = Some c \<and> c \<le> Fin 0)"

section \<open>The obstacle update\<close>

lemma rectangular_row:
  assumes "rectangular env" "is_valid env (y, x)"
  shows "nat y < length (grid env)" "nat x < length (grid env ! nat y)"
proof -
  from assms show a: "nat y < length (grid env)"
    by (auto simp: rectangular_def nat_less_iff)
  then have "grid env ! nat y \<in> set (grid env)"
    by simp
  with assms show "nat x < length (grid env ! nat y)"
    by (auto simp: rectangular_def nat_less_iff)
qed

text \<open>
  Claim C9, as the code has it: \<open>update_grid_with_obstacle\<close> is guarded by
  \<open>pos in self.dynamic_obstacles\<close>. For an in-bounds position that is registered as a
  dynamic obstacle the cell becomes impassable; for one that is not registered the
  environment is unchanged. In both cases a second call changes nothing more, and every
  other in-bounds cell keeps its cost.
\<close>

theorem update_grid_with_obstacle_registered:
  assumes "rectangular env" "is_valid env pos"
  shows "(pos \<in> dynamic_obstacles env \<longrightarrow> \<not> is_passable (update_grid_with_obstacle env pos) pos)
       \<and> (pos \<notin> dynamic_obstacles env \<longrightarrow> update_grid_with_obstacle env pos = env)
       \<and> update_grid_with_obstacle (update_grid_with_obstacle env pos) pos
           = update_grid_with_obstacle env pos
       \<and> (\<forall>q. is_valid env q \<and> q \<noteq> pos \<longrightarrow>
             get_cost (update_grid_with_obstacle env pos) q = get_cost env q)"
proof -
  obtain y x where pos: "pos = (y, x)"
    by (cases pos)
  from assms pos have r: "nat y < length (grid env)" "nat x < length (grid env ! nat y)"
    by (auto dest: rectangular_row)
  from assms pos have nonneg: "0 \<le> y" "0 \<le> x"
    by simp_all
  have frame: "get_cost (update_grid_with_obstacle env pos) q = get_cost env q"
    if "is_valid env q" "q \<noteq> pos" for q
  proof -
    obtain y' x' where q: "q = (y', x')"
      by (cases q)
    from that q have "0 \<le> y'" "0 \<le> x'"
      by simp_all
    with that q pos nonneg have "nat y' \<noteq> nat y \<or> nat x' \<noteq> nat x"
      by auto
    with r show ?thesis
      unfolding q pos by (auto simp: nth_list_update)
  qed
  from r have "\<not> is_passable (update_grid_with_obstacle env pos) pos"
    if "pos \<in> dynamic_obstacles env"
    using that unfolding pos by simp
  moreover have "update_grid_with_obstacle (update_grid_with_obstacle env pos) pos
      = update_grid_with_obstacle env pos"
    using r unfolding pos by simp
  moreover have "update_grid_with_obstacle env pos = env" if "pos \<notin> dynamic_obstacles env"
    using that unfolding pos by simp
  ultimately show ?thesis
    using frame by blast
qed

theorem update_grid_with_obstacle_registered_witness:
  "\<not> is_passable (update_grid_with_obstacle env_detour (0, 5)) (0, 5)
   \<and> update_grid_with_obstacle (update_grid_with_obstacle env_detour (0, 5)) (0, 5)
       = update_grid_with_obstacle env_detour (0, 5)
   \<and> get_cost (update_grid_with_obstacle env_detour (0, 5)) (0, 4) = get_cost env_detour (0, 4)"
proof -
  have r: "rectangular env_detour"
    by (simp add: rectangular_def env_detour_def)
  have v: "is_valid env_detour (0, 5)" "is_valid env_detour (0, 4)"
    by (simp_all add: env_detour_def)
  have d: "(0, 5) \<in> dynamic_obstacles env_detour"
    by (simp add: env_detour_def)
  from update_grid_with_obstacle_registered [OF r v(1)] d v(2) show ?thesis
    by (simp add: env_detour_def)
qed

text \<open>
  Claim C9 as stated fails for an in-bounds position that is not a registered dynamic
  obstacle: the call leaves the cell passable.
\<close>

theorem update_grid_with_obstacle_unregistered_counterexample:
  "is_valid env_single (0, 0) \<and> is_passable (update_grid_with_obstacle env_single (0, 0)) (0, 0)"
  by (simp add: env_single_def)

section \<open>Start equals goal\<close>

text \<open>
  Claim C10: with \<open>start = goal = p\<close> both searches pop the initial entry, count one
  expansion and return the path \<open>[p]\<close> with cost 0.
\<close>

theorem search_start_is_goal:
  "uniform_cost_search env p p = Some (Some [p], Fin 0, 1)
   \<and> a_star_search env p p = Some (Some [p], Fin 0, 1)"
  by (cases p)
    (simp add: uniform_cost_search_def a_star_search_def while_loop.simps ucs_body_def
      astar_body_def heappop_def)

section \<open>Replanning on the example maps\<close>

text \<open>
  Claim C6 at the corridor: the first search expands 7 nodes, the obstacle at \<open>(0, 5)\<close>
  triggers at step 5, the search from \<open>(0, 4)\<close> expands 5 nodes and fails, and the run
  returns the count 7 of the first search alone.
\<close>

theorem replan_failure_count_corridor:
  "a_star_search env_corridor (0, 0) (0, 6)
     = Some (Some [(0, 0), (0, 1), (0, 2), (0, 3), (0, 4), (0, 5), (0, 6)], Fin 6, 7)
   \<and> a_star_search (update_grid_with_obstacle env_corridor (0, 5)) (0, 4) (0, 6)
     = Some (None, Fin (-1), 5)
   \<and> returned (local_search_replanning env_corridor (0, 0) (0, 6))
     = Some (Inr (None, Fin (-1), 7))"
  by code_simp

text \<open>
  Claim C2 at the detour map: the obstacle triggers at index 4 of the walk. After the
  splice the walk goes on with index 5 of the old range, on the spliced path of nine
  positions, with the cost of the invalidated cell \<open>(0, 5)\<close> (now \<open>inf\<close>) added to the
  total; the range ends there, so the last two positions of the spliced path are never
  walked.
\<close>

theorem replan_walk_keeps_old_index:
  "replan_walk (0, 6) [4, 5] env_detour
     [(0, 0), (0, 1), (0, 2), (0, 3), (0, 4), (0, 5), (0, 6)] (Fin 4) 7
   = replan_walk (0, 6) [5] (update_grid_with_obstacle env_detour (0, 5))
       [(0, 0), (0, 1), (0, 2), (0, 3), (0, 4), (1, 4), (1, 5), (1, 6), (0, 6)]
       (Fin 4 + Fin 4 + get_cost (update_grid_with_obstacle env_detour (0, 5)) (0, 5)) (7 + 6)
   \<and> get_cost (update_grid_with_obstacle env_detour (0, 5)) (0, 5) = PInf
   \<and> returned (local_search_replanning env_detour (0, 0) (0, 6))
     = Some (Inr (Some [(0, 0), (0, 1), (0, 2), (0, 3), (0, 4), (1, 4), (1, 5), (1, 6), (0, 6)],
         PInf, 13))"
  by code_simp

text \<open>
  Claim C3 at the detour map: the replanning run returns a path whose cells cost 8 in
  all, with the cost \<open>inf\<close>.
\<close>

theorem replanning_cost_detour:
  "\<exists>path c n env'.
     local_search_replanning env_detour (0, 0) (0, 6) = Some (Inr ((Some path, c, n), env'))
     \<and> path_cost env' path = Fin 8 \<and> c = PInf"
proof -
  have "local_search_replanning env_detour (0, 0) (0, 6)
      = Some (Inr ((Some [(0, 0), (0, 1), (0, 2), (0, 3), (0, 4), (1, 4), (1, 5), (1, 6), (0, 6)],
          PInf, 13), update_grid_with_obstacle env_detour (0, 5)))"
    by code_simp
  moreover have "path_cost (update_grid_with_obstacle env_detour (0, 5))
      [(0, 0), (0, 1), (0, 2), (0, 3), (0, 4), (1, 4), (1, 5), (1, 6), (0, 6)] = Fin 8"
    by code_simp
  ultimately show ?thesis
    by blast
qed

section \<open>Reasoning about the loop\<close>

text \<open>
  An invariant that holds before the loop and is kept by every iteration that goes on
  holds when the loop returns; and the loop returns when every such iteration takes the
  state down a well-founded relation.
\<close>

lemma while_loop_rule:
  assumes run: "while_loop body s = Some r" and "I s"
    and step: "\<And>s s'. I s \<Longrightarrow> body s = Inr s' \<Longrightarrow> I s'"
    and fin: "\<And>s r. I s \<Longrightarrow> body s = Inl r \<Longrightarrow> Q r"
  shows "Q r"
proof -
  have "body = body \<longrightarrow> I s \<longrightarrow> Q r"
  proof (rule while_loop.raw_induct[where P = "\<lambda>b s r. b = body \<longrightarrow> I s \<longrightarrow> Q r", OF _ run])
    fix f b s r
    assume IH: "\<And>b s r. f b s = Some r \<Longrightarrow> b = body \<longrightarrow> I s \<longrightarrow> Q r"
      and eq: "(case b s of Inl r \<Rightarrow> Some r | Inr s' \<Rightarrow> f b s') = Some r"
    show "b = body \<longrightarrow> I s \<longrightarrow> Q r"
    proof (intro impI)
      assume b: "b = body" and i: "I s"
      show "Q r"
      proof (cases "body s")
        case (Inl r')
        with eq b have "r' = r" by simp
        with Inl i fin show ?thesis by blast
      next
        case (Inr s')
        with eq b have "f body s' = Some r" by simp
        from IH[OF this] step[OF i Inr] show ?thesis by blast
      qed
    qed
  qed
  with assms(2) show ?thesis by blast
qed

lemma while_loop_terminates:
  assumes "wf R" and "I s"
    and step: "\<And>s s'. I s \<Longrightarrow> body s = Inr s' \<Longrightarrow> I s' \<and> (s', s) \<in> R"
  shows "\<exists>r. while_loop body s = Some r"
  using assms(1,2)
proof (induction s rule: wf_induct_rule)
  case (less s)
  show ?case
  proof (cases "body s")
    case (Inl r)
    then show ?thesis
      by (subst while_loop.simps) simp
  next
    case (Inr s')
    from step[OF less.prems Inr] less.IH obtain r where "while_loop body s' = Some r"
      by blast
    with Inr show ?thesis
      by (subst while_loop.simps) simp
  qed
qed

section \<open>One iteration of the loops\<close>

lemma heappop_props:
  assumes "F \<noteq> []" "heappop F = (e, rest)"
  shows "e \<in> set F" "\<forall>e' \<in> set F. e \<le> e'" "rest = remove1 e F"
proof -
  from assms have e: "e = Min (set F)" and r: "rest = remove1 e F"
    by (auto simp: heappop_def min_list_Min)
  from e assms(1) show "e \<in> set F"
    by (simp add: Min_in)
  from e show "\<forall>e' \<in> set F. e \<le> e'"
    by simp
  from r show "rest = remove1 e F" .
qed

lemma remove1_facts:
  assumes "e \<in> set F"
  shows "set (remove1 e F) \<subseteq> set F" "set F \<subseteq> insert e (set (remove1 e F))"
    "Suc (length (remove1 e F)) = length F"
proof -
  show "set (remove1 e F) \<subseteq> set F"
    by (rule set_remove1_subset)
  show "set F \<subseteq> insert e (set (remove1 e F))"
  proof
    fix x
    assume "x \<in> set F"
    then show "x \<in> insert e (set (remove1 e F))"
      by (cases "x = e") (simp_all add: in_set_remove1)
  qed
  from assms have "0 < length F"
    by (cases F) auto
  with assms show "Suc (length (remove1 e F)) = length F"
    by (simp add: length_remove1)
qed

lemma pops_remove1:
  assumes "e \<in> set F"
  shows "pops F e (remove1 e F)"
  using assms remove1_facts[OF assms] by (simp add: pops_def)

lemma pops_g_entry:
  assumes "e \<in> set F"
  shows "pops (map g_entry F) (g_entry e) (map g_entry (remove1 e F))"
proof -
  note r = remove1_facts[OF assms]
  from r(1) have "set (map g_entry (remove1 e F)) \<subseteq> set (map g_entry F)"
    by auto
  moreover from r(2) have "set (map g_entry F) \<subseteq> insert (g_entry e) (set (map g_entry (remove1 e F)))"
    by auto
  ultimately show ?thesis
    using assms r(3) by (simp add: pops_def)
qed

lemma ucs_body_unfold:
  assumes "F \<noteq> []" "heappop F = ((g, p, path), rest)"
  shows "ucs_body env goal (F, vis, n) =
     (if p = goal then Inl (Some path, g, Suc n)
      else Inr (fst (fold (ucs_visit env g path) (get_neighbors env p) (rest, vis)),
                snd (fold (ucs_visit env g path) (get_neighbors env p) (rest, vis)), Suc n))"
  using assms by (simp add: ucs_body_def case_prod_beta)

lemma ucs_body_Inr:
  assumes "ucs_body env goal (F, vis, n) = Inr (F', vis', n')"
  shows "search_step env goal (F, vis) (F', vis') \<and> n' = Suc n"
proof -
  have ne: "F \<noteq> []"
  proof
    assume "F = []"
    with assms show False
      by (simp add: ucs_body_def)
  qed
  obtain g p path rest where hp: "heappop F = ((g, p, path), rest)"
    by (cases "heappop F") auto
  from heappop_props[OF ne hp] have po: "pops F (g, p, path) rest"
    by (simp add: pops_remove1)
  from assms have st: "p \<noteq> goal"
    "fold (ucs_visit env g path) (get_neighbors env p) (rest, vis) = (F', vis')" "n' = Suc n"
    unfolding ucs_body_unfold[OF ne hp] by (simp_all add: prod_eq_iff split: if_splits)
  have "search_step env goal (F, vis) (F', vis')"
    unfolding search_step_def fst_conv snd_conv
    using po st(1) st(2)[symmetric] by blast
  with st(3) show ?thesis
    by simp
qed

lemma ucs_body_Inl:
  assumes "ucs_body env goal (F, vis, n) = Inl r"
  shows "(F = [] \<and> r = (None, Fin (-1), n))
       \<or> (\<exists>g path. (g, goal, path) \<in> set F \<and> (\<forall>e' \<in> set F. (g, goal, path) \<le> e')
            \<and> r = (Some path, g, Suc n))"
proof (cases "F = []")
  case True
  with assms show ?thesis
    by (simp add: ucs_body_def)
next
  case ne: False
  obtain g p path rest where hp: "heappop F = ((g, p, path), rest)"
    by (cases "heappop F") auto
  from assms have "p = goal" "r = (Some path, g, Suc n)"
    unfolding ucs_body_unfold[OF ne hp] by (simp_all split: if_splits)
  with heappop_props(1,2)[OF ne hp] show ?thesis
    by blast
qed

lemma astar_visit_g_entry:
  "map_prod (map g_entry) id (astar_visit env goal g path q S)
   = ucs_visit env g path q (map_prod (map g_entry) id S)"
  by (cases S) (simp add: astar_visit_def ucs_visit_def heappush_def g_entry_def Let_def)

lemma fold_astar_visit_g_entry:
  "map_prod (map g_entry) id (fold (astar_visit env goal g path) qs S)
   = fold (ucs_visit env g path) qs (map_prod (map g_entry) id S)"
  by (induction qs arbitrary: S) (simp_all add: astar_visit_g_entry)

lemma astar_visit_fcosts_ok:
  "fcosts_ok goal (fst S) \<Longrightarrow> fcosts_ok goal (fst (astar_visit env goal g path q S))"
  by (cases S) (simp add: astar_visit_def heappush_def fcosts_ok_def Let_def)

lemma fold_astar_visit_fcosts_ok:
  "fcosts_ok goal (fst S) \<Longrightarrow> fcosts_ok goal (fst (fold (astar_visit env goal g path) qs S))"
  by (induction qs arbitrary: S) (simp_all add: astar_visit_fcosts_ok)

lemma astar_body_unfold:
  assumes "F \<noteq> []" "heappop F = ((f, g, p, path), rest)"
  shows "astar_body env goal (F, vis, n) =
     (if p = goal then Inl (Some path, g, Suc n)
      else Inr (fst (fold (astar_visit env goal g path) (get_neighbors env p) (rest, vis)),
                snd (fold (astar_visit env goal g path) (get_neighbors env p) (rest, vis)),
                Suc n))"
  using assms by (simp add: astar_body_def case_prod_beta)

lemma astar_body_Inr:
  assumes "astar_body env goal (F, vis, n) = Inr (F', vis', n')"
  shows "search_step env goal (map g_entry F, vis) (map g_entry F', vis') \<and> n' = Suc n
       \<and> (fcosts_ok goal F \<longrightarrow> fcosts_ok goal F')"
proof -
  have ne: "F \<noteq> []"
  proof
    assume "F = []"
    with assms show False
      by (simp add: astar_body_def)
  qed
  obtain f g p path rest where hp: "heappop F = ((f, g, p, path), rest)"
    by (cases "heappop F") auto
  note h = heappop_props[OF ne hp]
  from h(1,3) have po: "pops (map g_entry F) (g, p, path) (map g_entry rest)"
    using pops_g_entry[of "(f, g, p, path)" F] by (simp add: g_entry_def)
  from assms have st: "p \<noteq> goal"
    "fold (astar_visit env goal g path) (get_neighbors env p) (rest, vis) = (F', vis')"
    "n' = Suc n"
    unfolding astar_body_unfold[OF ne hp] by (simp_all add: prod_eq_iff split: if_splits)
  from fold_astar_visit_g_entry[of env goal g path "get_neighbors env p" "(rest, vis)"] st(2)
  have "(map g_entry F', vis')
      = fold (ucs_visit env g path) (get_neighbors env p) (map g_entry rest, vis)"
    by simp
  with po st(1) have "search_step env goal (map g_entry F, vis) (map g_entry F', vis')"
    unfolding search_step_def fst_conv snd_conv by blast
  moreover have "fcosts_ok goal F'" if "fcosts_ok goal F"
  proof -
    from h(3) have "set rest \<subseteq> set F"
      by (simp add: set_remove1_subset)
    with that have "fcosts_ok goal (fst (rest, vis))"
      unfolding fcosts_ok_def by auto
    from fold_astar_visit_fcosts_ok[OF this, of env g path "get_neighbors env p"] st(2)
    show ?thesis by simp
  qed
  ultimately show ?thesis
    using st(3) by blast
qed

lemma astar_body_Inl:
  assumes "astar_body env goal (F, vis, n) = Inl r"
  shows "(F = [] \<and> r = (None, Fin (-1), n))
       \<or> (\<exists>f g path. (f, g, goal, path) \<in> set F \<and> (\<forall>e' \<in> set F. (f, g, goal, path) \<le> e')
            \<and> r = (Some path, g, Suc n))"
proof (cases "F = []")
  case True
  with assms show ?thesis
    by (simp add: astar_body_def)
next
  case ne: False
  obtain f g p path rest where hp: "heappop F = ((f, g, p, path), rest)"
    by (cases "heappop F") auto
  from assms have "p = goal" "r = (Some path, g, Suc n)"
    unfolding astar_body_unfold[OF ne hp] by (simp_all split: if_splits)
  with heappop_props(1,2)[OF ne hp] show ?thesis
    by blast
qed

section \<open>Entries carry their path and its cost\<close>

lemma ucs_visit_cases:
  obtains (keep) c where "vis q = Some c" "c \<le> g + get_cost env q"
      "ucs_visit env g path q (F, vis) = (F, vis)"
  | (push) "vis q = None \<or> (\<exists>c. vis q = Some c \<and> g + get_cost env q < c)"
      "ucs_visit env g path q (F, vis)
       = (F @ [(g + get_cost env q, q, path @ [q])], vis(q \<mapsto> g + get_cost env q))"
proof (cases "vis q")
  case None
  then have "ucs_visit env g path q (F, vis)
       = (F @ [(g + get_cost env q, q, path @ [q])], vis(q \<mapsto> g + get_cost env q))"
    by (simp add: ucs_visit_def heappush_def Let_def)
  with None push show ?thesis by blast
next
  case (Some c)
  show ?thesis
  proof (cases "g + get_cost env q < c")
    case True
    with Some have "ucs_visit env g path q (F, vis)
       = (F @ [(g + get_cost env q, q, path @ [q])], vis(q \<mapsto> g + get_cost env q))"
      by (simp add: ucs_visit_def heappush_def Let_def)
    with Some True push show ?thesis by blast
  next
    case False
    with Some have "ucs_visit env g path q (F, vis) = (F, vis)"
      by (simp add: ucs_visit_def Let_def)
    with Some False keep show ?thesis by auto
  qed
qed

lemma walk_nonempty: "walk env path \<Longrightarrow> path \<noteq> []"
  by (cases path) auto

lemma walk_snoc:
  "walk env path \<Longrightarrow> q \<in> set (get_neighbors env (last path)) \<Longrightarrow> walk env (path @ [q])"
  by (induction env path rule: walk.induct) auto

lemma route_snoc:
  assumes "route env start p path" "q \<in> set (get_neighbors env p)"
  shows "route env start q (path @ [q])"
proof -
  from assms have w: "walk env path" and l: "last path = p" and h: "hd path = start"
    by (simp_all add: route_def)
  from w have "path \<noteq> []"
    by (rule walk_nonempty)
  with walk_snoc[OF w] assms(2) l h show ?thesis
    by (simp add: route_def)
qed

lemma path_cost_snoc:
  "path \<noteq> [] \<Longrightarrow> path_cost env (path @ [q]) = path_cost env path + get_cost env q"
  by (simp add: path_cost_def)

lemma ucs_visit_entries_ok:
  assumes "entries_ok env start (fst S)" "route env start p path" "g = path_cost env path"
    "q \<in> set (get_neighbors env p)"
  shows "entries_ok env start (fst (ucs_visit env g path q S))"
proof -
  obtain F vis where S: "S = (F, vis)"
    by (cases S)
  from assms(2) have ne: "path \<noteq> []"
    by (auto simp: route_def dest: walk_nonempty)
  show ?thesis
  proof (cases rule: ucs_visit_cases[of vis q g env path F])
    case (keep c)
    with assms(1) S show ?thesis by simp
  next
    case push
    with assms(1) S route_snoc[OF assms(2,4)] path_cost_snoc[OF ne, of env q] assms(3)
    show ?thesis
      by (simp add: entries_ok_def)
  qed
qed

lemma search_step_entries_ok:
  assumes "entries_ok env start (fst S)" "search_step env goal S S'"
  shows "entries_ok env start (fst S')"
proof -
  from assms(2) obtain g p path rest where po: "pops (fst S) (g, p, path) rest"
    and S': "S' = fold (ucs_visit env g path) (get_neighbors env p) (rest, snd S)"
    unfolding search_step_def by blast
  from po assms(1) have e: "route env start p path" "g = path_cost env path"
    by (auto simp: pops_def entries_ok_def)
  from po assms(1) have r: "entries_ok env start rest"
    by (auto simp: pops_def entries_ok_def)
  have "entries_ok env start (fst (fold (ucs_visit env g path) (get_neighbors env p) (rest, snd S)))"
    by (rule fold_invariant[where Q = "\<lambda>q. q \<in> set (get_neighbors env p)"
          and P = "\<lambda>S. entries_ok env start (fst S)"])
      (simp_all add: r ucs_visit_entries_ok[OF _ e])
  with S' show ?thesis by simp
qed

lemma route_start: "route env start start [start]"
  by (simp add: route_def)

lemma path_cost_single: "path_cost env [p] = Fin 0"
  by (simp add: path_cost_def zero_cost_def)

lemma ucs_returns_route:
  assumes "uniform_cost_search env start goal = Some (Some path, c, n)"
  shows "route env start goal path \<and> c = path_cost env path"
proof -
  let ?I = "\<lambda>(F, vis, n). entries_ok env start F"
  let ?Q = "\<lambda>(r :: result). \<forall>path c n. r = (Some path, c, n) \<longrightarrow>
      route env start goal path \<and> c = path_cost env path"
  have "?Q (Some path, c, n)"
  proof (rule while_loop_rule[where I = ?I and Q = ?Q, OF assms[unfolded uniform_cost_search_def]])
    show "?I ([(Fin 0, start, [start])], [start \<mapsto> Fin 0], 0)"
      by (simp add: entries_ok_def route_start path_cost_single)
  next
    fix s s' :: "ucs_entry search_state"
    assume "?I s" "ucs_body env goal s = Inr s'"
    then show "?I s'"
      using search_step_entries_ok[of env start "(fst s, fst (snd s))" goal "(fst s', fst (snd s'))"]
        ucs_body_Inr[of env goal "fst s" "fst (snd s)" "snd (snd s)" "fst s'" "fst (snd s')" "snd (snd s')"]
      by (simp add: case_prod_beta)
  next
    fix s :: "ucs_entry search_state" and r :: result
    assume "?I s" "ucs_body env goal s = Inl r"
    then show "?Q r"
      using ucs_body_Inl[of env goal "fst s" "fst (snd s)" "snd (snd s)" r]
      by (auto simp: case_prod_beta entries_ok_def)
  qed
  then show ?thesis by simp
qed

lemma astar_returns_route:
  assumes "a_star_search env start goal = Some (Some path, c, n)"
  shows "route env start goal path \<and> c = path_cost env path"
proof -
  let ?I = "\<lambda>(F, vis, n). entries_ok env start (map g_entry F)"
  let ?Q = "\<lambda>(r :: result). \<forall>path c n. r = (Some path, c, n) \<longrightarrow>
      route env start goal path \<and> c = path_cost env path"
  have "?Q (Some path, c, n)"
  proof (rule while_loop_rule[where I = ?I and Q = ?Q, OF assms[unfolded a_star_search_def]])
    show "?I ([(Fin 0 + Fin (manhattan_distance start goal), Fin 0, start, [start])],
        [start \<mapsto> Fin 0], 0)"
      by (simp add: entries_ok_def route_start path_cost_single g_entry_def)
  next
    fix s s' :: "astar_entry search_state"
    assume "?I s" "astar_body env goal s = Inr s'"
    then show "?I s'"
      using search_step_entries_ok[of env start "(map g_entry (fst s), fst (snd s))" goal
          "(map g_entry (fst s'), fst (snd s'))"]
        astar_body_Inr[of env goal "fst s" "fst (snd s)" "snd (snd s)" "fst s'" "fst (snd s')" "snd (snd s')"]
      by (simp add: case_prod_beta)
  next
    fix s :: "astar_entry search_state" and r :: result
    assume "?I s" "astar_body env goal s = Inl r"
    then show "?Q r"
      using astar_body_Inl[of env goal "fst s" "fst (snd s)" "snd (snd s)" r]
      by (auto simp: case_prod_beta entries_ok_def g_entry_def)
  qed
  then show ?thesis by simp
qed

lemma get_neighbors_passable:
  "q \<in> set (get_neighbors env p) \<Longrightarrow> is_valid env q \<and> is_passable env q"
  by (cases p) (simp only: get_neighbors.simps set_filter mem_Collect_eq)

lemma walk_tl_passable:
  "walk env path \<Longrightarrow> p \<in> set (tl path) \<Longrightarrow> is_valid env p \<and> is_passable env p"
proof (induction env path rule: walk.induct)
  case (3 env a b ps)
  from "3.prems" have "b \<in> set (get_neighbors env a)" "walk env (b # ps)" "p = b \<or> p \<in> set ps"
    by simp_all
  with "3.IH" get_neighbors_passable[of b env a] show ?case
    by auto
qed simp_all

lemma route_passable:
  assumes "route env start goal path" "is_valid env start" "is_passable env start"
    "p \<in> set path"
  shows "is_valid env p \<and> is_passable env p"
proof -
  from assms(1) have w: "walk env path" and h: "hd path = start"
    by (simp_all add: route_def)
  from w have "path \<noteq> []"
    by (rule walk_nonempty)
  with h assms(4) have "p = start \<or> p \<in> set (tl path)"
    by (cases path) auto
  with walk_tl_passable[OF w] assms(2,3) show ?thesis
    by blast
qed

section \<open>Returned paths are passable\<close>

text \<open>
  Claim C7: on a rectangular grid and from an in-bounds, passable start, every position
  of a path returned by \<open>uniform_cost_search\<close> or \<open>a_star_search\<close> is in bounds and
  passable.
\<close>

theorem search_path_passable:
  assumes "rectangular env" "is_valid env start" "is_passable env start"
    and "uniform_cost_search env start goal = Some (Some path, c, n)
       \<or> a_star_search env start goal = Some (Some path, c, n)"
  shows "\<forall>p \<in> set path. is_valid env p \<and> is_passable env p"
proof -
  from assms(4) have "route env start goal path"
    using ucs_returns_route astar_returns_route by blast
  with assms(2,3) show ?thesis
    using route_passable by blast
qed

theorem search_path_passable_witness:
  "a_star_search env_detour (0, 0) (0, 6)
     = Some (Some [(0, 0), (0, 1), (0, 2), (0, 3), (0, 4), (0, 5), (0, 6)], Fin 6, 7)
   \<and> list_all (\<lambda>p. is_valid env_detour p \<and> is_passable env_detour p)
       [(0, 0), (0, 1), (0, 2), (0, 3), (0, 4), (0, 5), (0, 6)]"
proof -
  have r: "rectangular env_detour"
    by (simp add: rectangular_def env_detour_def)
  have v: "is_valid env_detour (0, 0)" "is_passable env_detour (0, 0)"
    by (simp_all add: env_detour_def)
  have a: "a_star_search env_detour (0, 0) (0, 6)
     = Some (Some [(0, 0), (0, 1), (0, 2), (0, 3), (0, 4), (0, 5), (0, 6)], Fin 6, 7)"
    by code_simp
  from search_path_passable [OF r v disjI2, OF a] a show ?thesis
    by (simp only: list_all_iff simp_thms)
qed

section \<open>Replanning with an empty obstacle registry\<close>

lemma astar_returns_none:
  assumes "a_star_search env start goal = Some (None, c, n)"
  shows "c = Fin (-1)"
proof -
  let ?I = "\<lambda>(s :: astar_entry search_state). True"
  let ?Q = "\<lambda>(r :: result). \<forall>c n. r = (None, c, n) \<longrightarrow> c = Fin (-1)"
  have "?Q (None, c, n)"
  proof (rule while_loop_rule[where I = ?I and Q = ?Q, OF assms[unfolded a_star_search_def]])
    fix s :: "astar_entry search_state" and r :: result
    assume "astar_body env goal s = Inl r"
    then show "?Q r"
      using astar_body_Inl[of env goal "fst s" "fst (snd s)" "snd (snd s)" r]
      by auto
  qed simp_all
  then show ?thesis by simp
qed

lemma replan_walk_no_obstacles:
  assumes "dynamic_obstacles env = {}" "\<forall>i \<in> set indices. i + 1 < length path"
  shows "replan_walk goal indices env path acc n
     = Some (Inr ((Some path, acc + sum_list (map (\<lambda>i. get_cost env (path ! (i + 1))) indices), n), env))"
  using assms(2)
proof (induction indices arbitrary: acc)
  case Nil
  then show ?case by simp
next
  case (Cons i indices)
  from assms(1) have "\<not> is_dynamic_obstacle_at env (path ! (i + 1)) (i + 1)"
    by (simp add: is_dynamic_obstacle_at_def)
  with Cons show ?case
    by (simp add: add.assoc)
qed

lemma walk_whole_path:
  "sum_list (map (\<lambda>i. get_cost env ((p # ps) ! (i + 1))) [0 ..< length ps]) = path_cost env (p # ps)"
proof -
  have "map (\<lambda>i. get_cost env ((p # ps) ! (i + 1))) [0 ..< length ps]
      = map (get_cost env) (map (\<lambda>i. ps ! i) [0 ..< length ps])"
    by simp
  also have "\<dots> = map (get_cost env) ps"
    by (simp only: map_nth)
  finally show ?thesis
    by (simp add: path_cost_def)
qed

text \<open>
  Claim C4: when no dynamic obstacle is registered, \<open>local_search_replanning\<close> returns
  what \<open>a_star_search\<close> returns on the same inputs (path, cost and expansion count),
  leaves the environment as it was, and does not return where the search does not.
\<close>

theorem replanning_without_obstacles:
  assumes "rectangular env" "dynamic_obstacles env = {}"
  shows "local_search_replanning env start goal
     = map_option (\<lambda>r. Inr (r, env)) (a_star_search env start goal)"
proof (cases "a_star_search env start goal")
  case None
  then show ?thesis
    by (simp add: local_search_replanning_def)
next
  case (Some r)
  obtain po c n where r: "r = (po, c, n)"
    by (cases r)
  show ?thesis
  proof (cases po)
    case None
    with Some r astar_returns_none[of env start goal c n] show ?thesis
      by (simp add: local_search_replanning_def)
  next
    case (Some path)
    with \<open>a_star_search env start goal = Some r\<close> r
    have a: "a_star_search env start goal = Some (Some path, c, n)"
      by simp
    from astar_returns_route[OF a] have ro: "route env start goal path"
      and c: "c = path_cost env path"
      by simp_all
    from ro have "path \<noteq> []"
      by (auto simp: route_def dest: walk_nonempty)
    then obtain p ps where path: "path = p # ps"
      by (cases path) auto
    have "replan_walk goal [0 ..< length ps] env (p # ps) (Fin 0) n
        = Some (Inr ((Some (p # ps), path_cost env (p # ps), n), env))"
      using replan_walk_no_obstacles[OF assms(2), of "[0 ..< length ps]" "p # ps" goal "Fin 0" n]
        walk_whole_path[of env p ps]
      by (simp add: zero_cost_def[symmetric])
    with a c path show ?thesis
      by (simp add: local_search_replanning_def)
  qed
qed

theorem replanning_without_obstacles_witness:
  "local_search_replanning env_open (0, 0) (2, 2)
   = Some (Inr ((Some [(0, 0), (0, 1), (0, 2), (1, 2), (2, 2)], Fin 4, 9), env_open))"
proof -
  have r: "rectangular env_open"
    by (simp add: rectangular_def env_open_def)
  have d: "dynamic_obstacles env_open = {}"
    by (simp add: env_open_def)
  have a: "a_star_search env_open (0, 0) (2, 2)
      = Some (Some [(0, 0), (0, 1), (0, 2), (1, 2), (2, 2)], Fin 4, 9)"
    by code_simp
  from replanning_without_obstacles [OF r d, of "(0, 0)" "(2, 2)"] a show ?thesis
    by simp
qed

section \<open>What one iteration does to the frontier and the visited map\<close>

lemma distinct_get_neighbors: "distinct (get_neighbors env p)"
proof -
  obtain y x where p: "p = (y, x)"
    by (cases p)
  have "distinct (map (\<lambda>(dy, dx). (y + dy, x + dx)) [(0, 1), (0, -1), (1, 0), (-1, 0 :: int)])"
    by simp
  then show ?thesis
    unfolding p get_neighbors.simps by (rule distinct_filter)
qed

lemma improves_upd: "r \<noteq> q \<Longrightarrow> improves env (vis(q \<mapsto> c)) g r = improves env vis g r"
  by (simp add: improves_def)

lemma relaxed_Cons:
  assumes "q \<notin> set qs"
  shows "relaxed env (if improves env vis g q then vis(q \<mapsto> g + get_cost env q) else vis) g qs
       = relaxed env vis g (q # qs)"
proof
  fix r
  show "relaxed env (if improves env vis g q then vis(q \<mapsto> g + get_cost env q) else vis) g qs r
       = relaxed env vis g (q # qs) r"
    using assms by (cases "r = q") (auto simp: relaxed_def improves_upd)
qed

lemma filter_improves_upd:
  assumes "q \<notin> set qs"
  shows "filter (improves env (vis(q \<mapsto> c)) g) qs = filter (improves env vis g) qs"
proof (rule filter_cong[OF refl])
  fix r
  assume "r \<in> set qs"
  with assms have "r \<noteq> q"
    by blast
  then show "improves env (vis(q \<mapsto> c)) g r = improves env vis g r"
    by (rule improves_upd)
qed

lemma ucs_visit_improves:
  "ucs_visit env g path q (F, vis) =
     (if improves env vis g q
      then (F @ [(g + get_cost env q, q, path @ [q])], vis(q \<mapsto> g + get_cost env q))
      else (F, vis))"
  by (simp add: ucs_visit_def improves_def heappush_def Let_def)

lemma astar_visit_improves:
  "astar_visit env goal g path q (F, vis) =
     (if improves env vis g q
      then (F @ [(g + get_cost env q + Fin (manhattan_distance q goal), g + get_cost env q, q,
                  path @ [q])],
            vis(q \<mapsto> g + get_cost env q))
      else (F, vis))"
  by (simp add: astar_visit_def improves_def heappush_def Let_def)

lemma fold_ucs_visit:
  assumes "distinct qs"
  shows "fold (ucs_visit env g path) qs (F, vis)
     = (F @ map (\<lambda>q. (g + get_cost env q, q, path @ [q])) (filter (improves env vis g) qs),
        relaxed env vis g qs)"
  using assms
proof (induction qs arbitrary: F vis)
  case Nil
  show ?case by (simp add: relaxed_def)
next
  case (Cons q qs)
  then have q: "q \<notin> set qs" and d: "distinct qs"
    by simp_all
  let ?mk = "\<lambda>q. (g + get_cost env q, q, path @ [q])"
  let ?new = "g + get_cost env q"
  show ?case
  proof (cases "improves env vis g q")
    case True
    have "fold (ucs_visit env g path) (q # qs) (F, vis)
        = fold (ucs_visit env g path) qs (F @ [?mk q], vis(q \<mapsto> ?new))"
      using True by (simp add: ucs_visit_improves)
    also have "\<dots> = ((F @ [?mk q]) @ map ?mk (filter (improves env (vis(q \<mapsto> ?new)) g) qs),
        relaxed env (vis(q \<mapsto> ?new)) g qs)"
      by (rule Cons.IH[OF d])
    also have "filter (improves env (vis(q \<mapsto> ?new)) g) qs = filter (improves env vis g) qs"
      by (rule filter_improves_upd[OF q])
    also have "relaxed env (vis(q \<mapsto> ?new)) g qs = relaxed env vis g (q # qs)"
      using relaxed_Cons[OF q, of env vis g] True by simp
    finally show ?thesis
      using True by simp
  next
    case False
    have "fold (ucs_visit env g path) (q # qs) (F, vis) = fold (ucs_visit env g path) qs (F, vis)"
      using False by (simp add: ucs_visit_improves)
    also have "\<dots> = (F @ map ?mk (filter (improves env vis g) qs), relaxed env vis g qs)"
      by (rule Cons.IH[OF d])
    also have "relaxed env vis g qs = relaxed env vis g (q # qs)"
      using relaxed_Cons[OF q, of env vis g] False by simp
    finally show ?thesis
      using False by simp
  qed
qed

lemma fold_astar_visit:
  assumes "distinct qs"
  shows "fold (astar_visit env goal g path) qs (F, vis)
     = (F @ map (\<lambda>q. (g + get_cost env q + Fin (manhattan_distance q goal), g + get_cost env q, q,
                       path @ [q]))
              (filter (improves env vis g) qs),
        relaxed env vis g qs)"
  using assms
proof (induction qs arbitrary: F vis)
  case Nil
  show ?case by (simp add: relaxed_def)
next
  case (Cons q qs)
  then have q: "q \<notin> set qs" and d: "distinct qs"
    by simp_all
  let ?mk = "\<lambda>q. (g + get_cost env q + Fin (manhattan_distance q goal), g + get_cost env q, q, path @ [q])"
  let ?new = "g + get_cost env q"
  show ?case
  proof (cases "improves env vis g q")
    case True
    have "fold (astar_visit env goal g path) (q # qs) (F, vis)
        = fold (astar_visit env goal g path) qs (F @ [?mk q], vis(q \<mapsto> ?new))"
      using True by (simp add: astar_visit_improves)
    also have "\<dots> = ((F @ [?mk q]) @ map ?mk (filter (improves env (vis(q \<mapsto> ?new)) g) qs),
        relaxed env (vis(q \<mapsto> ?new)) g qs)"
      by (rule Cons.IH[OF d])
    also have "filter (improves env (vis(q \<mapsto> ?new)) g) qs = filter (improves env vis g) qs"
      by (rule filter_improves_upd[OF q])
    also have "relaxed env (vis(q \<mapsto> ?new)) g qs = relaxed env vis g (q # qs)"
      using relaxed_Cons[OF q, of env vis g] True by simp
    finally show ?thesis
      using True by simp
  next
    case False
    have "fold (astar_visit env goal g path) (q # qs) (F, vis) = fold (astar_visit env goal g path) qs (F, vis)"
      using False by (simp add: astar_visit_improves)
    also have "\<dots> = (F @ map ?mk (filter (improves env vis g) qs), relaxed env vis g qs)"
      by (rule Cons.IH[OF d])
    also have "relaxed env vis g qs = relaxed env vis g (q # qs)"
      using relaxed_Cons[OF q, of env vis g] False by simp
    finally show ?thesis
      using False by simp
  qed
qed

lemma only_improved_relaxed: "only_improved vis (relaxed env vis g qs)"
  by (auto simp: only_improved_def relaxed_def improves_def)

lemma ucs_body_iteration:
  assumes "ucs_body env goal (F, vis, n) = Inr (F', vis', n')"
    and hp: "heappop F = ((g, p, path), rest)"
  shows "F' = rest @ map (\<lambda>q. (g + get_cost env q, q, path @ [q]))
                  (filter (improves env vis g) (get_neighbors env p))"
    and "vis' = relaxed env vis g (get_neighbors env p)"
proof -
  have ne: "F \<noteq> []"
  proof
    assume "F = []"
    with assms(1) show False
      by (simp add: ucs_body_def)
  qed
  from assms(1) have "fold (ucs_visit env g path) (get_neighbors env p) (rest, vis) = (F', vis')"
    unfolding ucs_body_unfold[OF ne hp] by (simp add: prod_eq_iff split: if_splits)
  then have *: "(F', vis') = (rest @ map (\<lambda>q. (g + get_cost env q, q, path @ [q]))
                  (filter (improves env vis g) (get_neighbors env p)),
                relaxed env vis g (get_neighbors env p))"
    by (simp only: fold_ucs_visit[OF distinct_get_neighbors])
  from * show "F' = rest @ map (\<lambda>q. (g + get_cost env q, q, path @ [q]))
                  (filter (improves env vis g) (get_neighbors env p))"
    by simp
  from * show "vis' = relaxed env vis g (get_neighbors env p)"
    by simp
qed

lemma astar_body_iteration:
  assumes "astar_body env goal (F, vis, n) = Inr (F', vis', n')"
    and hp: "heappop F = ((f, g, p, path), rest)"
  shows "F' = rest @ map (\<lambda>q. (g + get_cost env q + Fin (manhattan_distance q goal),
                               g + get_cost env q, q, path @ [q]))
                  (filter (improves env vis g) (get_neighbors env p))"
    and "vis' = relaxed env vis g (get_neighbors env p)"
proof -
  have ne: "F \<noteq> []"
  proof
    assume "F = []"
    with assms(1) show False
      by (simp add: astar_body_def)
  qed
  from assms(1)
  have "fold (astar_visit env goal g path) (get_neighbors env p) (rest, vis) = (F', vis')"
    unfolding astar_body_unfold[OF ne hp] by (simp add: prod_eq_iff split: if_splits)
  then have *: "(F', vis') = (rest @ map (\<lambda>q. (g + get_cost env q + Fin (manhattan_distance q goal),
                               g + get_cost env q, q, path @ [q]))
                  (filter (improves env vis g) (get_neighbors env p)),
                relaxed env vis g (get_neighbors env p))"
    by (simp only: fold_astar_visit[OF distinct_get_neighbors])
  from * show "F' = rest @ map (\<lambda>q. (g + get_cost env q + Fin (manhattan_distance q goal),
                               g + get_cost env q, q, path @ [q]))
                  (filter (improves env vis g) (get_neighbors env p))"
    by simp
  from * show "vis' = relaxed env vis g (get_neighbors env p)"
    by simp
qed

text \<open>
  Claim C8. Take any iteration of either search that goes on: it pops an entry of cost
  \<open>g\<close> at \<open>p\<close>. The frontier afterwards is the rest of the frontier followed by one new
  entry for exactly those neighbours of \<open>p\<close> that have no recorded cost or a recorded
  cost strictly above \<open>g\<close> plus their own cost; the visited map is changed at exactly
  those neighbours, to that new cost; so every cost recorded before is still recorded,
  unchanged or strictly lower.
\<close>

theorem visited_only_improved:
  "(ucs_body env goal (F, vis, n) = Inr (F', vis', n') \<and> heappop F = ((g, p, path), rest) \<longrightarrow>
      F' = rest @ map (\<lambda>q. (g + get_cost env q, q, path @ [q]))
                   (filter (improves env vis g) (get_neighbors env p))
      \<and> vis' = relaxed env vis g (get_neighbors env p)
      \<and> only_improved vis vis')
   \<and> (astar_body env goal (A, vis, n) = Inr (A', vis', n')
        \<and> heappop A = ((f, g, p, path), rest_a) \<longrightarrow>
      A' = rest_a @ map (\<lambda>q. (g + get_cost env q + Fin (manhattan_distance q goal),
                                g + get_cost env q, q, path @ [q]))
                     (filter (improves env vis g) (get_neighbors env p))
      \<and> vis' = relaxed env vis g (get_neighbors env p)
      \<and> only_improved vis vis')"
  using ucs_body_iteration[of env goal F vis n F' vis' n' g p path rest]
    astar_body_iteration[of env goal A vis n A' vis' n' f g p path rest_a]
    only_improved_relaxed[of vis env g "get_neighbors env p"]
  by blast

theorem visited_only_improved_witness:
  "ucs_body env_open (2, 2) ([(Fin 0, (0, 0), [(0, 0)])], [(0, 0) \<mapsto> Fin 0], 0)
     = Inr ([(Fin 1, (0, 1), [(0, 0), (0, 1)]), (Fin 1, (1, 0), [(0, 0), (1, 0)])],
            [(0, 0) \<mapsto> Fin 0, (0, 1) \<mapsto> Fin 1, (1, 0) \<mapsto> Fin 1], 1)
   \<and> astar_body env_open (2, 2) ([(Fin 4, Fin 0, (0, 0), [(0, 0)])], [(0, 0) \<mapsto> Fin 0], 0)
     = Inr ([(Fin 4, Fin 1, (0, 1), [(0, 0), (0, 1)]), (Fin 4, Fin 1, (1, 0), [(0, 0), (1, 0)])],
            [(0, 0) \<mapsto> Fin 0, (0, 1) \<mapsto> Fin 1, (1, 0) \<mapsto> Fin 1], 1)
   \<and> filter (improves env_open [(0, 0) \<mapsto> Fin 0] (Fin 0)) (get_neighbors env_open (0, 0))
     = [(0, 1), (1, 0)]
   \<and> only_improved [(0, 0) \<mapsto> Fin 0] [(0, 0) \<mapsto> Fin 0, (0, 1) \<mapsto> Fin 1, (1, 0) \<mapsto> Fin 1]"
proof -
  have u: "ucs_body env_open (2, 2) ([(Fin 0, (0, 0), [(0, 0)])], [(0, 0) \<mapsto> Fin 0], 0)
     = Inr ([(Fin 1, (0, 1), [(0, 0), (0, 1)]), (Fin 1, (1, 0), [(0, 0), (1, 0)])],
            [(0, 0) \<mapsto> Fin 0, (0, 1) \<mapsto> Fin 1, (1, 0) \<mapsto> Fin 1], 1)"
    by (simp add: ucs_body_def heappop_def ucs_visit_def heappush_def env_open_def Let_def)
  have a: "astar_body env_open (2, 2) ([(Fin 4, Fin 0, (0, 0), [(0, 0)])], [(0, 0) \<mapsto> Fin 0], 0)
     = Inr ([(Fin 4, Fin 1, (0, 1), [(0, 0), (0, 1)]), (Fin 4, Fin 1, (1, 0), [(0, 0), (1, 0)])],
            [(0, 0) \<mapsto> Fin 0, (0, 1) \<mapsto> Fin 1, (1, 0) \<mapsto> Fin 1], 1)"
    by (simp add: astar_body_def heappop_def astar_visit_def heappush_def env_open_def Let_def)
  have hu: "heappop [(Fin 0, (0, 0), [(0 :: int, 0 :: int)])] = ((Fin 0, (0, 0), [(0, 0)]), [])"
    by (simp add: heappop_def)
  have ha: "heappop [(Fin 4, Fin 0, (0, 0), [(0 :: int, 0 :: int)])]
      = ((Fin 4, Fin 0, (0, 0), [(0, 0)]), [])"
    by (simp add: heappop_def)
  have f: "filter (improves env_open [(0, 0) \<mapsto> Fin 0] (Fin 0)) (get_neighbors env_open (0, 0))
     = [(0, 1), (1, 0)]"
    by (simp add: improves_def env_open_def)
  from visited_only_improved [of env_open "(2, 2)" "[(Fin 0, (0, 0), [(0, 0)])]"
      "[(0, 0) \<mapsto> Fin 0]" 0 _ _ 1 "Fin 0" "(0, 0)" "[(0, 0)]" "[]"
      "[(Fin 4, Fin 0, (0, 0), [(0, 0)])]" _ "Fin 4" "[]"] u a hu ha
  have "only_improved [(0, 0) \<mapsto> Fin 0] [(0, 0) \<mapsto> Fin 0, (0, 1) \<mapsto> Fin 1, (1, 0) \<mapsto> Fin 1]"
    by blast
  with u a f show ?thesis
    by blast
qed

section \<open>Termination of the searches\<close>

lemma finite_valid: "finite {p. is_valid env p}"
proof -
  have "{p. is_valid env p} \<subseteq> {0 ..< int (height env)} \<times> {0 ..< int (width env)}"
    by auto
  then show ?thesis
    by (rule finite_subset) simp
qed

lemma neighbor_cost_nonneg:
  assumes "rectangular env" "costs_at_least 0 env" "q \<in> set (get_neighbors env p)"
  shows "nonneg (get_cost env q)"
proof -
  obtain y x where q: "q = (y, x)"
    by (cases q)
  from get_neighbors_passable[OF assms(3)] q have v: "is_valid env (y, x)"
    and pa: "grid env ! nat y ! nat x \<noteq> PInf"
    by simp_all
  from rectangular_row[OF assms(1) v]
  have "grid env ! nat y \<in> set (grid env)" "grid env ! nat y ! nat x \<in> set (grid env ! nat y)"
    by simp_all
  with assms(2) pa have "Fin 0 \<le> grid env ! nat y ! nat x"
    unfolding costs_at_least_def by blast
  with pa show ?thesis
    unfolding q nonneg_def by (cases "grid env ! nat y ! nat x") auto
qed

lemma nonneg_add: "nonneg a \<Longrightarrow> nonneg b \<Longrightarrow> nonneg (a + b)"
  by (auto simp: nonneg_def)

lemma nonneg_less_weight: "nonneg a \<Longrightarrow> nonneg b \<Longrightarrow> a < b \<Longrightarrow> weight a < weight b"
  by (auto simp: nonneg_def weight_def)

lemma vmeasure_new:
  assumes "is_valid env q" "vis q = None"
  shows "fst (vmeasure env (vis(q \<mapsto> c))) < fst (vmeasure env vis)"
proof -
  let ?U = "{p. is_valid env p} - dom vis"
  have e: "{p. is_valid env p} - dom (vis(q \<mapsto> c)) = ?U - {q}"
    by auto
  from assms have q: "q \<in> ?U"
    by auto
  have f: "finite ?U"
    using finite_valid by simp
  from card_Diff1_less[OF f q] show ?thesis
    unfolding vmeasure_def fst_conv e .
qed

lemma vmeasure_lower:
  assumes "finite (dom vis)" "vis q = Some c" "weight c' < weight c"
  shows "fst (vmeasure env (vis(q \<mapsto> c'))) = fst (vmeasure env vis)"
    and "snd (vmeasure env (vis(q \<mapsto> c'))) < snd (vmeasure env vis)"
proof -
  from assms(2) have d: "dom (vis(q \<mapsto> c')) = dom vis" and q: "q \<in> dom vis"
    by auto
  then show "fst (vmeasure env (vis(q \<mapsto> c'))) = fst (vmeasure env vis)"
    by (simp add: vmeasure_def)
  have "(\<Sum>p \<in> dom vis. weight (the ((vis(q \<mapsto> c')) p)))
      = weight c' + (\<Sum>p \<in> dom vis - {q}. weight (the ((vis(q \<mapsto> c')) p)))"
    using assms(1) q by (simp add: sum.remove)
  also have "(\<Sum>p \<in> dom vis - {q}. weight (the ((vis(q \<mapsto> c')) p)))
      = (\<Sum>p \<in> dom vis - {q}. weight (the (vis p)))"
    by (rule sum.cong) auto
  also have "weight c' + \<dots> < weight c + (\<Sum>p \<in> dom vis - {q}. weight (the (vis p)))"
    using assms(3) by simp
  also have "\<dots> = (\<Sum>p \<in> dom vis. weight (the (vis p)))"
    using assms(1,2) q by (simp add: sum.remove)
  finally show "snd (vmeasure env (vis(q \<mapsto> c'))) < snd (vmeasure env vis)"
    using d by (simp add: vmeasure_def)
qed

text \<open>One neighbour: nothing changes, or the visited map gets smaller and one entry is pushed.\<close>

lemma ucs_visit_good:
  assumes "good (F, vis)" "nonneg g" "nonneg (get_cost env q)" "is_valid env q"
  shows "good (ucs_visit env g path q (F, vis))"
    and "ucs_visit env g path q (F, vis) = (F, vis)
       \<or> (vmeasure env (snd (ucs_visit env g path q (F, vis))), vmeasure env vis)
            \<in> less_than <*lex*> less_than"
proof -
  let ?new = "g + get_cost env q"
  from assms(2,3) have n: "nonneg ?new"
    by (rule nonneg_add)
  show "good (ucs_visit env g path q (F, vis))"
    using assms(1) n by (auto simp: ucs_visit_improves good_def)
  show "ucs_visit env g path q (F, vis) = (F, vis)
       \<or> (vmeasure env (snd (ucs_visit env g path q (F, vis))), vmeasure env vis)
            \<in> less_than <*lex*> less_than"
  proof (cases "improves env vis g q")
    case False
    then show ?thesis
      by (simp add: ucs_visit_improves)
  next
    case True
    show ?thesis
    proof (cases "vis q")
      case None
      from vmeasure_new[where env = env and q = q and vis = vis and c = ?new, OF assms(4) None] True
      show ?thesis
        by (cases "vmeasure env (vis(q \<mapsto> ?new))"; cases "vmeasure env vis")
          (simp add: ucs_visit_improves)
    next
      case (Some c)
      with True have "?new < c"
        by (simp add: improves_def)
      moreover from assms(1) have "\<forall>p c. vis p = Some c \<longrightarrow> nonneg c"
        and "finite (dom vis)"
        unfolding good_def snd_conv by blast+
      with Some have "nonneg c" "finite (dom vis)"
        by blast+
      ultimately have "weight ?new < weight c"
        using n by (simp add: nonneg_less_weight)
      from vmeasure_lower[where env = env and q = q and vis = vis and c' = ?new and c = c,
          OF \<open>finite (dom vis)\<close> Some this] True
      show ?thesis
        by (cases "vmeasure env (vis(q \<mapsto> ?new))"; cases "vmeasure env vis")
          (simp add: ucs_visit_improves)
    qed
  qed
qed

lemma fold_ucs_visit_good:
  assumes "nonneg g" "\<forall>q \<in> set qs. nonneg (get_cost env q) \<and> is_valid env q" "good S"
  shows "good (fold (ucs_visit env g path) qs S)
       \<and> (length (fst (fold (ucs_visit env g path) qs S)) = length (fst S)
            \<and> vmeasure env (snd (fold (ucs_visit env g path) qs S)) = vmeasure env (snd S)
          \<or> (vmeasure env (snd (fold (ucs_visit env g path) qs S)), vmeasure env (snd S))
               \<in> less_than <*lex*> less_than)"
  using assms(2,3)
proof (induction qs arbitrary: S)
  case Nil
  then show ?case by simp
next
  case (Cons q qs)
  obtain F vis where S: "S = (F, vis)"
    by (cases S)
  let ?S1 = "ucs_visit env g path q (F, vis)"
  from Cons.prems have q: "nonneg (get_cost env q)" "is_valid env q"
    and qs: "\<forall>q \<in> set qs. nonneg (get_cost env q) \<and> is_valid env q"
    by simp_all
  from Cons.prems(2) S have g: "good (F, vis)"
    by simp
  note v = ucs_visit_good[OF g assms(1) q, of path]
  note IH = Cons.IH[OF qs v(1)]
  have tr: "trans (less_than <*lex*> less_than)"
    by (intro trans_lex_prod trans_less_than)
  from v(2) show ?case
  proof
    assume "?S1 = (F, vis)"
    with IH S show ?thesis
      by simp
  next
    assume d: "(vmeasure env (snd ?S1), vmeasure env vis) \<in> less_than <*lex*> less_than"
    from IH have "(vmeasure env (snd (fold (ucs_visit env g path) qs ?S1)), vmeasure env vis)
        \<in> less_than <*lex*> less_than"
    proof (elim conjE disjE)
      assume "vmeasure env (snd (fold (ucs_visit env g path) qs ?S1)) = vmeasure env (snd ?S1)"
      with d show ?thesis by simp
    next
      assume "(vmeasure env (snd (fold (ucs_visit env g path) qs ?S1)), vmeasure env (snd ?S1))
          \<in> less_than <*lex*> less_than"
      with d tr show ?thesis
        by (blast dest: transD)
    qed
    with IH S show ?thesis
      by simp
  qed
qed

lemma search_step_good:
  assumes "rectangular env" "costs_at_least 0 env" "good S" "search_step env goal S S'"
  shows "good S' \<and> (smeasure env S', smeasure env S) \<in> (less_than <*lex*> less_than) <*lex*> less_than"
proof -
  from assms(4) obtain g p path rest where po: "pops (fst S) (g, p, path) rest"
    and S': "S' = fold (ucs_visit env g path) (get_neighbors env p) (rest, snd S)"
    unfolding search_step_def by blast
  from po assms(3) have g: "nonneg g"
    unfolding pops_def good_def by blast
  from po assms(3) have r: "good (rest, snd S)"
    unfolding pops_def good_def fst_conv snd_conv by blast
  from po have l: "length rest < length (fst S)"
    unfolding pops_def by simp
  have q: "\<forall>q \<in> set (get_neighbors env p). nonneg (get_cost env q) \<and> is_valid env q"
    using neighbor_cost_nonneg[OF assms(1,2)] get_neighbors_passable by blast
  from fold_ucs_visit_good[OF g q r, of path] S'
  have "good S'" and
    "length (fst S') = length rest \<and> vmeasure env (snd S') = vmeasure env (snd S)
     \<or> (vmeasure env (snd S'), vmeasure env (snd S)) \<in> less_than <*lex*> less_than"
    by simp_all
  with l show ?thesis
    by (auto simp: smeasure_def)
qed

lemma wf_smeasure:
  "wf (inv_image ((less_than <*lex*> less_than) <*lex*> less_than) (f :: 'a \<Rightarrow> (nat \<times> nat) \<times> nat))"
  by (intro wf_inv_image wf_lex_prod wf_less_than)

lemma ucs_terminates:
  assumes "rectangular env" "costs_at_least 0 env"
  shows "\<exists>r. uniform_cost_search env start goal = Some r"
  unfolding uniform_cost_search_def
proof (rule while_loop_terminates[where I = "\<lambda>(F, vis, n). good (F, vis)"
      and R = "inv_image ((less_than <*lex*> less_than) <*lex*> less_than)
        (\<lambda>(F, vis, n). smeasure env (F, vis))"])
  show "wf (inv_image ((less_than <*lex*> less_than) <*lex*> less_than)
        (\<lambda>(F :: ucs_entry list, vis, n :: nat). smeasure env (F, vis)))"
    by (rule wf_smeasure)
  show "case ([(Fin 0, start, [start])], [start \<mapsto> Fin 0], 0 :: nat) of
      (F, vis, n) \<Rightarrow> good (F, vis)"
    by (simp add: good_def nonneg_def)
next
  fix s s' :: "ucs_entry search_state"
  assume "case s of (F, vis, n) \<Rightarrow> good (F, vis)" "ucs_body env goal s = Inr s'"
  then show "(case s' of (F, vis, n) \<Rightarrow> good (F, vis))
      \<and> (s', s) \<in> inv_image ((less_than <*lex*> less_than) <*lex*> less_than)
        (\<lambda>(F, vis, n). smeasure env (F, vis))"
    using search_step_good[OF assms, of "(fst s, fst (snd s))" goal "(fst s', fst (snd s'))"]
      ucs_body_Inr[of env goal "fst s" "fst (snd s)" "snd (snd s)" "fst s'" "fst (snd s')" "snd (snd s')"]
    by (simp add: case_prod_beta)
qed

lemma astar_terminates:
  assumes "rectangular env" "costs_at_least 0 env"
  shows "\<exists>r. a_star_search env start goal = Some r"
  unfolding a_star_search_def
proof (rule while_loop_terminates[where I = "\<lambda>(F, vis, n). good (map g_entry F, vis)"
      and R = "inv_image ((less_than <*lex*> less_than) <*lex*> less_than)
        (\<lambda>(F, vis, n). smeasure env (map g_entry F, vis))"])
  show "wf (inv_image ((less_than <*lex*> less_than) <*lex*> less_than)
        (\<lambda>(F :: astar_entry list, vis, n :: nat). smeasure env (map g_entry F, vis)))"
    by (rule wf_smeasure)
  show "case ([(Fin 0 + Fin (manhattan_distance start goal), Fin 0, start, [start])],
        [start \<mapsto> Fin 0], 0 :: nat) of
      (F, vis, n) \<Rightarrow> good (map g_entry F, vis)"
    by (simp add: good_def nonneg_def g_entry_def)
next
  fix s s' :: "astar_entry search_state"
  assume "case s of (F, vis, n) \<Rightarrow> good (map g_entry F, vis)" "astar_body env goal s = Inr s'"
  then show "(case s' of (F, vis, n) \<Rightarrow> good (map g_entry F, vis))
      \<and> (s', s) \<in> inv_image ((less_than <*lex*> less_than) <*lex*> less_than)
        (\<lambda>(F, vis, n). smeasure env (map g_entry F, vis))"
    using search_step_good[OF assms, of "(map g_entry (fst s), fst (snd s))" goal
        "(map g_entry (fst s'), fst (snd s'))"]
      astar_body_Inr[of env goal "fst s" "fst (snd s)" "snd (snd s)" "fst s'" "fst (snd s')" "snd (snd s')"]
    by (simp add: case_prod_beta)
qed

lemma ucs_none_result:
  assumes "uniform_cost_search env start goal = Some (None, c, n)"
  shows "c = Fin (-1) \<and> 1 \<le> n"
proof -
  let ?I = "\<lambda>(F :: ucs_entry list, vis :: pos \<rightharpoonup> cost, n :: nat). F \<noteq> [] \<or> 1 \<le> n"
  let ?Q = "\<lambda>(r :: result). \<forall>c n. r = (None, c, n) \<longrightarrow> c = Fin (-1) \<and> 1 \<le> n"
  have "?Q (None, c, n)"
  proof (rule while_loop_rule[where I = ?I and Q = ?Q, OF assms[unfolded uniform_cost_search_def]])
    show "?I ([(Fin 0, start, [start])], [start \<mapsto> Fin 0], 0)"
      by simp
  next
    fix s s' :: "ucs_entry search_state"
    assume "?I s" "ucs_body env goal s = Inr s'"
    then show "?I s'"
      using ucs_body_Inr[of env goal "fst s" "fst (snd s)" "snd (snd s)" "fst s'" "fst (snd s')" "snd (snd s')"]
      by (simp add: case_prod_beta)
  next
    fix s :: "ucs_entry search_state" and r :: result
    assume "?I s" "ucs_body env goal s = Inl r"
    then show "?Q r"
      using ucs_body_Inl[of env goal "fst s" "fst (snd s)" "snd (snd s)" r]
      by (auto simp: case_prod_beta)
  qed
  then show ?thesis by simp
qed

lemma astar_none_result:
  assumes "a_star_search env start goal = Some (None, c, n)"
  shows "c = Fin (-1) \<and> 1 \<le> n"
proof -
  let ?I = "\<lambda>(F :: astar_entry list, vis :: pos \<rightharpoonup> cost, n :: nat). F \<noteq> [] \<or> 1 \<le> n"
  let ?Q = "\<lambda>(r :: result). \<forall>c n. r = (None, c, n) \<longrightarrow> c = Fin (-1) \<and> 1 \<le> n"
  have "?Q (None, c, n)"
  proof (rule while_loop_rule[where I = ?I and Q = ?Q, OF assms[unfolded a_star_search_def]])
    show "?I ([(Fin 0 + Fin (manhattan_distance start goal), Fin 0, start, [start])],
        [start \<mapsto> Fin 0], 0)"
      by simp
  next
    fix s s' :: "astar_entry search_state"
    assume "?I s" "astar_body env goal s = Inr s'"
    then show "?I s'"
      using astar_body_Inr[of env goal "fst s" "fst (snd s)" "snd (snd s)" "fst s'" "fst (snd s')" "snd (snd s')"]
      by (simp add: case_prod_beta)
  next
    fix s :: "astar_entry search_state" and r :: result
    assume "?I s" "astar_body env goal s = Inl r"
    then show "?Q r"
      using astar_body_Inl[of env goal "fst s" "fst (snd s)" "snd (snd s)" r]
      by (auto simp: case_prod_beta)
  qed
  then show ?thesis by simp
qed

text \<open>
  Claim C5: on a rectangular grid whose finite costs are not negative (what \<open>load_grid\<close>
  builds from a rectangular map), with start and goal in bounds and passable, if no path
  leads from start to goal then both searches return, and what they return is the triple
  \<open>(None, -1, nodes_expanded)\<close> with at least one expansion.
\<close>

theorem no_path_reported:
  assumes "rectangular env" "costs_at_least 0 env"
    and "is_valid env start" "is_passable env start" "is_valid env goal" "is_passable env goal"
    and "\<forall>path. \<not> route env start goal path"
  shows "(\<exists>n. 1 \<le> n \<and> uniform_cost_search env start goal = Some (None, Fin (-1), n))
       \<and> (\<exists>n. 1 \<le> n \<and> a_star_search env start goal = Some (None, Fin (-1), n))"
proof
  from ucs_terminates[OF assms(1,2), of start goal] obtain po c n
    where u: "uniform_cost_search env start goal = Some (po, c, n)"
    by (metis prod_cases3)
  from assms(7) ucs_returns_route[of env start goal _ c n] u have "po = None"
    by (cases po) auto
  with u ucs_none_result[of env start goal c n]
  show "\<exists>n. 1 \<le> n \<and> uniform_cost_search env start goal = Some (None, Fin (-1), n)"
    by auto
next
  from astar_terminates[OF assms(1,2), of start goal] obtain po c n
    where a: "a_star_search env start goal = Some (po, c, n)"
    by (metis prod_cases3)
  from assms(7) astar_returns_route[of env start goal _ c n] a have "po = None"
    by (cases po) auto
  with a astar_none_result[of env start goal c n]
  show "\<exists>n. 1 \<le> n \<and> a_star_search env start goal = Some (None, Fin (-1), n)"
    by auto
qed

theorem no_path_reported_witness:
  "(\<exists>n. 1 \<le> n \<and> uniform_cost_search env_blocked (0, 0) (0, 2) = Some (None, Fin (-1), n))
   \<and> (\<exists>n. 1 \<le> n \<and> a_star_search env_blocked (0, 0) (0, 2) = Some (None, Fin (-1), n))"
proof -
  have r: "rectangular env_blocked" "costs_at_least 0 env_blocked"
    by (simp_all add: rectangular_def costs_at_least_def env_blocked_def)
  have v: "is_valid env_blocked (0, 0)" "is_passable env_blocked (0, 0)"
    "is_valid env_blocked (0, 2)" "is_passable env_blocked (0, 2)"
    by (simp_all add: env_blocked_def)
  have nb: "get_neighbors env_blocked (0, 0) = []"
    by (simp add: env_blocked_def)
  have "\<not> route env_blocked (0, 0) (0, 2) path" for path
  proof
    assume ro: "route env_blocked (0, 0) (0, 2) path"
    show False
    proof (cases path)
      case Nil
      with ro show False by (simp add: route_def)
    next
      case (Cons p ps)
      show False
      proof (cases ps)
        case Nil
        with Cons ro show False by (auto simp: route_def)
      next
        case (Cons q qs)
        with \<open>path = p # ps\<close> ro nb show False by (auto simp: route_def simp del: get_neighbors.simps)
      qed
    qed
  qed
  then have n: "\<forall>path. \<not> route env_blocked (0, 0) (0, 2) path"
    by blast
  from no_path_reported [OF r v n] show ?thesis .
qed

section \<open>Visited positions are in the frontier or expanded\<close>

lemma has_entry_push:
  "has_entry (F @ [(c, q, path)]) (vis(q \<mapsto> c)) q"
  by (auto simp: has_entry_def)

lemma has_entry_keep:
  "has_entry F vis r \<Longrightarrow> r \<noteq> q \<Longrightarrow> has_entry (F @ [e]) (vis(q \<mapsto> c)) r"
  by (auto simp: has_entry_def)

lemma closed_on_lower:
  assumes "closed_on env vis D r" "r \<noteq> q" "vis q = None \<or> (\<exists>c'. vis q = Some c' \<and> c < c')"
  shows "closed_on env (vis(q \<mapsto> c)) D r"
proof -
  from assms(1) obtain v where v: "vis r = Some v"
    and n: "\<forall>q' \<in> D. \<exists>c'. vis q' = Some c' \<and> c' \<le> v + get_cost env q'"
    unfolding closed_on_def by blast
  have "\<exists>c'. (vis(q \<mapsto> c)) q' = Some c' \<and> c' \<le> v + get_cost env q'" if "q' \<in> D" for q'
  proof (cases "q' = q")
    case True
    from n that True obtain c' where "vis q = Some c'" "c' \<le> v + get_cost env q"
      by blast
    with assms(3) have "c \<le> v + get_cost env q"
      by auto
    with True show ?thesis by simp
  next
    case False
    with n that show ?thesis by simp
  qed
  with v assms(2) show ?thesis
    unfolding closed_on_def by simp
qed

lemma closed_on_insert:
  assumes "closed_on env vis D p" "vis p = Some g" "vis q = Some c" "c \<le> g + get_cost env q"
  shows "closed_on env vis (insert q D) p"
  using assms unfolding closed_on_def by auto

lemma ucs_visit_settling:
  assumes "settling env goal g p D (F, vis)"
  shows "settling env goal g p (insert q D) (ucs_visit env g path q (F, vis))"
proof (cases rule: ucs_visit_cases[of vis q g env path F])
  case (keep c)
  have "has_entry F vis r
        \<or> (r \<noteq> goal \<and> closed_on env vis (set (get_neighbors env r)) r)
        \<or> (r = p \<and> p \<noteq> goal \<and> vis p = Some g \<and> closed_on env vis (insert q D) p)"
    if "r \<in> dom vis" for r
  proof -
    from assms that have "has_entry F vis r
        \<or> (r \<noteq> goal \<and> closed_on env vis (set (get_neighbors env r)) r)
        \<or> (r = p \<and> p \<noteq> goal \<and> vis p = Some g \<and> closed_on env vis D p)"
      unfolding settling_def fst_conv snd_conv by blast
    with closed_on_insert[of env vis D p g q c] keep(1,2) show ?thesis
      by blast
  qed
  with keep(3) show ?thesis
    unfolding settling_def by simp
next
  case push
  let ?new = "g + get_cost env q"
  let ?F = "F @ [(?new, q, path @ [q])]"
  let ?vis = "vis(q \<mapsto> ?new)"
  have "has_entry ?F ?vis r
        \<or> (r \<noteq> goal \<and> closed_on env ?vis (set (get_neighbors env r)) r)
        \<or> (r = p \<and> p \<noteq> goal \<and> ?vis p = Some g \<and> closed_on env ?vis (insert q D) p)"
    if "r \<in> dom ?vis" for r
  proof (cases "r = q")
    case True
    then show ?thesis
      using has_entry_push by blast
  next
    case False
    with that have "r \<in> dom vis"
      by auto
    with assms have "has_entry F vis r
        \<or> (r \<noteq> goal \<and> closed_on env vis (set (get_neighbors env r)) r)
        \<or> (r = p \<and> p \<noteq> goal \<and> vis p = Some g \<and> closed_on env vis D p)"
      unfolding settling_def fst_conv snd_conv by blast
    then show ?thesis
    proof (elim disjE conjE)
      assume "has_entry F vis r"
      with False show ?thesis
        using has_entry_keep by blast
    next
      assume "r \<noteq> goal" "closed_on env vis (set (get_neighbors env r)) r"
      with False push(1) show ?thesis
        using closed_on_lower by blast
    next
      assume a: "r = p" "p \<noteq> goal" "vis p = Some g" "closed_on env vis D p"
      with False push(1) have "closed_on env ?vis D p"
        using closed_on_lower by blast
      moreover from a False have "?vis p = Some g" "?vis q = Some ?new"
        by simp_all
      ultimately have "closed_on env ?vis (insert q D) p"
        using closed_on_insert[of env ?vis D p g q ?new] by simp
      with a \<open>?vis p = Some g\<close> show ?thesis
        by blast
    qed
  qed
  with push(2) show ?thesis
    unfolding settling_def by simp
qed

lemma fold_ucs_visit_settling:
  assumes "settling env goal g p D S"
  shows "settling env goal g p (D \<union> set qs) (fold (ucs_visit env g path) qs S)"
  using assms
proof (induction qs arbitrary: D S)
  case Nil
  then show ?case by simp
next
  case (Cons q qs)
  obtain F vis where S: "S = (F, vis)"
    by (cases S)
  from Cons.prems S have "settling env goal g p (insert q D) (ucs_visit env g path q S)"
    using ucs_visit_settling by blast
  from Cons.IH[OF this] show ?case
    by simp
qed

lemma search_step_settled:
  assumes "settled env goal S" "search_step env goal S S'"
  shows "settled env goal S'"
proof -
  from assms(2) obtain g p path rest where po: "pops (fst S) (g, p, path) rest"
    and pg: "p \<noteq> goal"
    and S': "S' = fold (ucs_visit env g path) (get_neighbors env p) (rest, snd S)"
    unfolding search_step_def by blast
  have "has_entry rest (snd S) r
        \<or> (r \<noteq> goal \<and> closed_on env (snd S) (set (get_neighbors env r)) r)
        \<or> (r = p \<and> p \<noteq> goal \<and> snd S p = Some g \<and> closed_on env (snd S) {} p)"
    if "r \<in> dom (snd S)" for r
  proof -
    from assms(1) that have "has_entry (fst S) (snd S) r
        \<or> (r \<noteq> goal \<and> closed_on env (snd S) (set (get_neighbors env r)) r)"
      unfolding settled_def by blast
    then show ?thesis
    proof
      assume "has_entry (fst S) (snd S) r"
      then obtain c path' where c: "snd S r = Some c" "(c, r, path') \<in> set (fst S)"
        unfolding has_entry_def by blast
      show ?thesis
      proof (cases "(c, r, path') \<in> set rest")
        case True
        with c show ?thesis
          unfolding has_entry_def by blast
      next
        case False
        with po c(2) have "(c, r, path') = (g, p, path)"
          unfolding pops_def by blast
        with c(1) pg show ?thesis
          by (simp add: closed_on_def)
      qed
    qed blast
  qed
  then have "settling env goal g p {} (rest, snd S)"
    unfolding settling_def by simp
  from fold_ucs_visit_settling[OF this, of "get_neighbors env p" path] S'
  have "settling env goal g p (set (get_neighbors env p)) S'"
    by simp
  then show ?thesis
    unfolding settling_def settled_def by blast
qed

lemma search_step_start_low:
  assumes "start_low start (snd S)" "search_step env goal S S'"
  shows "start_low start (snd S')"
proof -
  from assms(2) obtain g p path rest
    where S': "S' = fold (ucs_visit env g path) (get_neighbors env p) (rest, snd S)"
    unfolding search_step_def by blast
  then have "snd S' = relaxed env (snd S) g (get_neighbors env p)"
    by (simp add: fold_ucs_visit[OF distinct_get_neighbors])
  with only_improved_relaxed[of "snd S" env g "get_neighbors env p"]
  have "only_improved (snd S) (snd S')"
    by simp
  with assms(1) show ?thesis
    unfolding start_low_def only_improved_def by (metis order.strict_implies_order order.trans)
qed

section \<open>Every route meets the frontier\<close>

lemma walk_nth:
  "walk env path \<Longrightarrow> Suc j < length path \<Longrightarrow> path ! Suc j \<in> set (get_neighbors env (path ! j))"
proof (induction env path arbitrary: j rule: walk.induct)
  case (3 env p q ps)
  then show ?case
    by (cases j) (simp_all del: get_neighbors.simps)
qed simp_all

lemma walk_drop: "walk env path \<Longrightarrow> j < length path \<Longrightarrow> walk env (drop j path)"
proof (induction env path arbitrary: j rule: walk.induct)
  case (3 env p q ps)
  then show ?case
    by (cases j) (simp_all del: get_neighbors.simps)
qed simp_all

lemma path_cost_take_Suc:
  assumes "Suc j < length path"
  shows "path_cost env (take (Suc (Suc j)) path)
       = path_cost env (take (Suc j) path) + get_cost env (path ! Suc j)"
proof -
  from assms have "take (Suc (Suc j)) path = take (Suc j) path @ [path ! Suc j]"
    by (simp add: take_Suc_conv_app_nth)
  moreover from assms have "take (Suc j) path \<noteq> []"
    by (cases path) auto
  ultimately show ?thesis
    using path_cost_snoc[of "take (Suc j) path" env "path ! Suc j"] by argo
qed

lemma path_cost_split:
  assumes "j < length path"
  shows "path_cost env path = path_cost env (take (Suc j) path) + path_cost env (drop j path)"
proof -
  let ?t = "tl path"
  have a: "tl (take (Suc j) path) = take j ?t"
    by (cases path) simp_all
  have b: "tl (drop j path) = drop j ?t"
    by (simp add: drop_Suc tl_drop)
  have "sum_list (map (get_cost env) ?t)
      = sum_list (map (get_cost env) (take j ?t @ drop j ?t))"
    by simp
  also have "\<dots> = sum_list (map (get_cost env) (take j ?t))
      + sum_list (map (get_cost env) (drop j ?t))"
    by (simp only: map_append sum_list.append)
  finally show ?thesis
    unfolding path_cost_def a b .
qed

text \<open>
  Along a route from the start, some position has a frontier entry whose cost is at most
  the cost of the route up to that position.
\<close>

lemma route_frontier_aux:
  assumes "settled env goal (F, vis)" "start_low start vis" "walk env path" "hd path = start"
    and "j < length path"
  shows "(\<exists>i\<le>j. \<exists>c path'. (c, path ! i, path') \<in> set F \<and> c \<le> path_cost env (take (Suc i) path))
       \<or> (\<exists>c. vis (path ! j) = Some c \<and> c \<le> path_cost env (take (Suc j) path))"
  using assms(5)
proof (induction j)
  case 0
  from assms(3) have "path \<noteq> []"
    by (rule walk_nonempty)
  with assms(4) have "path ! 0 = start" "take (Suc 0) path = [start]"
    by (cases path; simp)+
  with assms(2) show ?case
    by (simp add: start_low_def path_cost_single)
next
  case (Suc j)
  then have j: "j < length path"
    by simp
  from Suc.IH[OF j] show ?case
  proof
    assume "\<exists>i\<le>j. \<exists>c path'. (c, path ! i, path') \<in> set F \<and> c \<le> path_cost env (take (Suc i) path)"
    then show ?thesis
      using le_SucI by blast
  next
    assume "\<exists>c. vis (path ! j) = Some c \<and> c \<le> path_cost env (take (Suc j) path)"
    then obtain v where v: "vis (path ! j) = Some v" "v \<le> path_cost env (take (Suc j) path)"
      by blast
    then have "path ! j \<in> dom vis"
      by blast
    with assms(1) have "has_entry F vis (path ! j)
        \<or> closed_on env vis (set (get_neighbors env (path ! j))) (path ! j)"
      unfolding settled_def fst_conv snd_conv by blast
    then show ?thesis
    proof
      assume "has_entry F vis (path ! j)"
      with v obtain path' where "(v, path ! j, path') \<in> set F"
        unfolding has_entry_def by auto
      with v(2) show ?thesis
        using le_SucI[OF order_refl, of j] by blast
    next
      assume "closed_on env vis (set (get_neighbors env (path ! j))) (path ! j)"
      with v(1) walk_nth[OF assms(3) Suc.prems] obtain c
        where c: "vis (path ! Suc j) = Some c" "c \<le> v + get_cost env (path ! Suc j)"
        unfolding closed_on_def by force
      from v(2) have "v + get_cost env (path ! Suc j)
          \<le> path_cost env (take (Suc j) path) + get_cost env (path ! Suc j)"
        by (rule add_right_mono)
      with c path_cost_take_Suc[OF Suc.prems, of env] show ?thesis
        by auto
    qed
  qed
qed

lemma route_frontier:
  assumes "settled env goal (F, vis)" "start_low start vis" "route env start goal path"
  shows "\<exists>i<length path. \<exists>c path'. (c, path ! i, path') \<in> set F
       \<and> c \<le> path_cost env (take (Suc i) path)"
proof -
  from assms(3) have w: "walk env path" and h: "hd path = start" and l: "last path = goal"
    by (simp_all add: route_def)
  from w have ne: "path \<noteq> []"
    by (rule walk_nonempty)
  let ?j = "length path - 1"
  from ne have j: "?j < length path" and g: "path ! ?j = goal" and t: "take (Suc ?j) path = path"
    using l by (simp_all add: last_conv_nth)
  from route_frontier_aux[OF assms(1,2) w h j] show ?thesis
  proof
    assume "\<exists>i\<le>?j. \<exists>c path'. (c, path ! i, path') \<in> set F
        \<and> c \<le> path_cost env (take (Suc i) path)"
    with j show ?thesis
      by (meson le_less_trans)
  next
    assume "\<exists>c. vis (path ! ?j) = Some c \<and> c \<le> path_cost env (take (Suc ?j) path)"
    with g t obtain c where c: "vis goal = Some c" "c \<le> path_cost env path"
      by auto
    then have "goal \<in> dom vis"
      by blast
    with assms(1) have "has_entry F vis goal"
      unfolding settled_def fst_conv snd_conv by blast
    with c obtain path' where "(c, goal, path') \<in> set F"
      unfolding has_entry_def by auto
    with c(2) g t j show ?thesis
      by metis
  qed
qed

section \<open>The heuristic and the least entry\<close>

lemma manhattan_self: "manhattan_distance p p = 0"
  by (cases p) simp

lemma manhattan_nonneg: "0 \<le> manhattan_distance p q"
  by (cases p; cases q) simp

lemma manhattan_step:
  assumes "q \<in> set (get_neighbors env p)"
  shows "manhattan_distance p goal \<le> 1 + manhattan_distance q goal"
proof -
  obtain y x gy gx where p: "p = (y, x)" and g: "goal = (gy, gx)"
    by (cases p; cases goal) auto
  from assms have "q \<in> set (map (\<lambda>(dy, dx). (y + dy, x + dx)) [(0, 1), (0, -1), (1, 0), (-1, 0)])"
    unfolding p get_neighbors.simps by (simp only: set_filter mem_Collect_eq)
  then have "q = (y, x + 1) \<or> q = (y, x - 1) \<or> q = (y + 1, x) \<or> q = (y - 1, x)"
    by auto
  then show ?thesis
    unfolding p g by auto
qed

lemma neighbor_cost_at_least:
  assumes "rectangular env" "costs_at_least k env" "q \<in> set (get_neighbors env p)"
  shows "Fin k \<le> get_cost env q"
proof -
  obtain y x where q: "q = (y, x)"
    by (cases q)
  from get_neighbors_passable[OF assms(3)] q have v: "is_valid env (y, x)"
    and pa: "grid env ! nat y ! nat x \<noteq> PInf"
    by simp_all
  from rectangular_row[OF assms(1) v]
  have "grid env ! nat y \<in> set (grid env)" "grid env ! nat y ! nat x \<in> set (grid env ! nat y)"
    by simp_all
  with assms(2) pa show ?thesis
    unfolding costs_at_least_def q by auto
qed

text \<open>
  The heuristic is admissible: when every finite cost is at least 1, the Manhattan distance
  between the ends of a walk is at most the cost of the walk.
\<close>

lemma walk_heuristic:
  "rectangular env \<Longrightarrow> costs_at_least 1 env \<Longrightarrow> walk env path \<Longrightarrow>
   Fin (manhattan_distance (hd path) (last path)) \<le> path_cost env path"
proof (induction env path rule: walk.induct)
  case (1 env)
  then show ?case by simp
next
  case (2 env p)
  then show ?case
    by (simp add: manhattan_self path_cost_single)
next
  case (3 env p q ps)
  then have n: "q \<in> set (get_neighbors env p)" and w: "walk env (q # ps)"
    by simp_all
  note r = "3.prems"(1,2)
  let ?l = "last (q # ps)"
  from "3.IH"[OF r w] have "Fin (manhattan_distance q ?l) \<le> path_cost env (q # ps)"
    by simp
  with neighbor_cost_at_least[OF r n]
  have "Fin 1 + Fin (manhattan_distance q ?l) \<le> get_cost env q + path_cost env (q # ps)"
    by (rule add_mono)
  also have "get_cost env q + path_cost env (q # ps) = path_cost env (p # q # ps)"
    by (simp add: path_cost_def)
  finally have b: "Fin 1 + Fin (manhattan_distance q ?l) \<le> path_cost env (p # q # ps)" .
  from manhattan_step[OF n, of ?l]
  have a: "Fin (manhattan_distance p ?l) \<le> Fin 1 + Fin (manhattan_distance q ?l)"
    by simp
  have e: "hd (p # q # ps) = p" "last (p # q # ps) = ?l"
    by simp_all
  from order_trans[OF a b] show ?case
    unfolding e .
qed

lemma frontier_bound:
  assumes "rectangular env" "costs_at_least 1 env"
    and "settled env goal (F, vis)" "start_low start vis" "route env start goal path"
  shows "\<exists>c p path'. (c, p, path') \<in> set F
       \<and> c + Fin (manhattan_distance p goal) \<le> path_cost env path"
proof -
  from route_frontier[OF assms(3-5)] obtain i c path'
    where i: "i < length path" and e: "(c, path ! i, path') \<in> set F"
      and c: "c \<le> path_cost env (take (Suc i) path)"
    by blast
  from assms(5) have w: "walk env path" and l: "last path = goal"
    by (simp_all add: route_def)
  from i l have "hd (drop i path) = path ! i" "last (drop i path) = goal"
    by (simp_all add: hd_drop_conv_nth)
  with walk_heuristic[OF assms(1,2) walk_drop[OF w i]]
  have "Fin (manhattan_distance (path ! i) goal) \<le> path_cost env (drop i path)"
    by simp
  with c have "c + Fin (manhattan_distance (path ! i) goal)
      \<le> path_cost env (take (Suc i) path) + path_cost env (drop i path)"
    by (rule add_mono)
  then have "c + Fin (manhattan_distance (path ! i) goal) \<le> path_cost env path"
    by (simp only: path_cost_split[OF i, of env, symmetric])
  with e show ?thesis
    by blast
qed

lemma prod_le_fst: "(a :: 'a :: linorder, b :: 'b :: linorder) \<le> (c, d) \<Longrightarrow> a \<le> c"
  by (auto simp: less_eq_prod_def)

lemma cost_le_add_heuristic: "c \<le> c + Fin (manhattan_distance p q)"
proof -
  have "Fin 0 \<le> Fin (manhattan_distance p q)"
    by (simp add: manhattan_nonneg)
  then have "c + Fin 0 \<le> c + Fin (manhattan_distance p q)"
    by (rule add_left_mono)
  then show ?thesis
    by (simp add: zero_cost_def[symmetric])
qed

lemma ucs_result_optimal:
  assumes "rectangular env" "costs_at_least 1 env"
    and "uniform_cost_search env start goal = Some r"
  shows "(\<forall>path c n. r = (Some path, c, n) \<longrightarrow>
            (\<forall>other. route env start goal other \<longrightarrow> c \<le> path_cost env other))
       \<and> (\<forall>c n. r = (None, c, n) \<longrightarrow> (\<forall>other. \<not> route env start goal other))"
    (is "?Q r")
proof (rule while_loop_rule[where Q = ?Q
      and I = "\<lambda>(F, vis, n). settled env goal (F, vis) \<and> start_low start vis",
      OF assms(3)[unfolded uniform_cost_search_def]])
  show "case ([(Fin 0, start, [start])], [start \<mapsto> Fin 0], 0 :: nat) of
      (F, vis, n) \<Rightarrow> settled env goal (F, vis) \<and> start_low start vis"
    by (simp add: settled_def has_entry_def start_low_def)
next
  fix s s' :: "ucs_entry search_state"
  assume "case s of (F, vis, n) \<Rightarrow> settled env goal (F, vis) \<and> start_low start vis"
    "ucs_body env goal s = Inr s'"
  then show "case s' of (F, vis, n) \<Rightarrow> settled env goal (F, vis) \<and> start_low start vis"
    using search_step_settled[of env goal "(fst s, fst (snd s))" "(fst s', fst (snd s'))"]
      search_step_start_low[of start "(fst s, fst (snd s))" env goal "(fst s', fst (snd s'))"]
      ucs_body_Inr[of env goal "fst s" "fst (snd s)" "snd (snd s)" "fst s'" "fst (snd s')" "snd (snd s')"]
    by (simp add: case_prod_beta)
next
  fix s :: "ucs_entry search_state" and r :: result
  assume I: "case s of (F, vis, n) \<Rightarrow> settled env goal (F, vis) \<and> start_low start vis"
    and b: "ucs_body env goal s = Inl r"
  obtain F vis n where s: "s = (F, vis, n)"
    by (cases s)
  from I s have se: "settled env goal (F, vis)" and sl: "start_low start vis"
    by simp_all
  note fb = frontier_bound[OF assms(1,2) se sl]
  from ucs_body_Inl[OF b[unfolded s]] show "?Q r"
  proof (elim disjE conjE exE)
    assume "F = []" "r = (None, Fin (-1), n)"
    with fb show ?thesis
      by fastforce
  next
    fix g path
    assume m: "\<forall>e' \<in> set F. (g, goal, path) \<le> e'" and r: "r = (Some path, g, Suc n)"
    have "g \<le> path_cost env other" if "route env start goal other" for other
    proof -
      from fb[OF that] obtain c p path' where e: "(c, p, path') \<in> set F"
        and c: "c + Fin (manhattan_distance p goal) \<le> path_cost env other"
        by blast
      from m e have "g \<le> c"
        using prod_le_fst by blast
      also have "c \<le> c + Fin (manhattan_distance p goal)"
        by (rule cost_le_add_heuristic)
      finally show ?thesis
        using c by (rule order_trans)
    qed
    with r show ?thesis
      by simp
  qed
qed

lemma astar_result_optimal:
  assumes "rectangular env" "costs_at_least 1 env"
    and "a_star_search env start goal = Some r"
  shows "(\<forall>path c n. r = (Some path, c, n) \<longrightarrow>
            (\<forall>other. route env start goal other \<longrightarrow> c \<le> path_cost env other))
       \<and> (\<forall>c n. r = (None, c, n) \<longrightarrow> (\<forall>other. \<not> route env start goal other))"
    (is "?Q r")
proof (rule while_loop_rule[where Q = ?Q
      and I = "\<lambda>(F, vis, n). settled env goal (map g_entry F, vis) \<and> start_low start vis
        \<and> fcosts_ok goal F",
      OF assms(3)[unfolded a_star_search_def]])
  show "case ([(Fin 0 + Fin (manhattan_distance start goal), Fin 0, start, [start])],
        [start \<mapsto> Fin 0], 0 :: nat) of
      (F, vis, n) \<Rightarrow> settled env goal (map g_entry F, vis) \<and> start_low start vis
        \<and> fcosts_ok goal F"
    by (simp add: settled_def has_entry_def start_low_def fcosts_ok_def g_entry_def)
next
  fix s s' :: "astar_entry search_state"
  assume "case s of (F, vis, n) \<Rightarrow> settled env goal (map g_entry F, vis) \<and> start_low start vis
        \<and> fcosts_ok goal F"
    "astar_body env goal s = Inr s'"
  then show "case s' of (F, vis, n) \<Rightarrow> settled env goal (map g_entry F, vis)
        \<and> start_low start vis \<and> fcosts_ok goal F"
    using search_step_settled[of env goal "(map g_entry (fst s), fst (snd s))"
        "(map g_entry (fst s'), fst (snd s'))"]
      search_step_start_low[of start "(map g_entry (fst s), fst (snd s))" env goal
        "(map g_entry (fst s'), fst (snd s'))"]
      astar_body_Inr[of env goal "fst s" "fst (snd s)" "snd (snd s)" "fst s'" "fst (snd s')" "snd (snd s')"]
    by (simp add: case_prod_beta)
next
  fix s :: "astar_entry search_state" and r :: result
  assume I: "case s of (F, vis, n) \<Rightarrow> settled env goal (map g_entry F, vis)
        \<and> start_low start vis \<and> fcosts_ok goal F"
    and b: "astar_body env goal s = Inl r"
  obtain F vis n where s: "s = (F, vis, n)"
    by (cases s)
  from I s have se: "settled env goal (map g_entry F, vis)" and sl: "start_low start vis"
    and fc: "fcosts_ok goal F"
    by simp_all
  note fb = frontier_bound[OF assms(1,2) se sl]
  from astar_body_Inl[OF b[unfolded s]] show "?Q r"
  proof (elim disjE conjE exE)
    assume "F = []" "r = (None, Fin (-1), n)"
    with fb show ?thesis
      by fastforce
  next
    fix f g path
    assume i: "(f, g, goal, path) \<in> set F"
      and m: "\<forall>e' \<in> set F. (f, g, goal, path) \<le> e'" and r: "r = (Some path, g, Suc n)"
    from fc i have "f = g + Fin (manhattan_distance goal goal)"
      unfolding fcosts_ok_def by blast
    then have fg: "f = g"
      by (simp add: manhattan_self zero_cost_def[symmetric])
    have "g \<le> path_cost env other" if "route env start goal other" for other
    proof -
      from fb[OF that] obtain c p path' where e: "(c, p, path') \<in> set (map g_entry F)"
        and c: "c + Fin (manhattan_distance p goal) \<le> path_cost env other"
        by blast
      from e obtain f' where e': "(f', c, p, path') \<in> set F"
        by (auto simp: g_entry_def)
      with fc have "f' = c + Fin (manhattan_distance p goal)"
        unfolding fcosts_ok_def by blast
      moreover from m e' have "f \<le> f'"
        using prod_le_fst by blast
      ultimately show ?thesis
        using c fg by simp
    qed
    with r show ?thesis
      by simp
  qed
qed

section \<open>Optimality of the searches\<close>

lemma costs_at_least_mono: "costs_at_least 1 env \<Longrightarrow> costs_at_least 0 env"
  unfolding costs_at_least_def
proof (intro ballI)
  fix row c
  assume a: "\<forall>row \<in> set (grid env). \<forall>c \<in> set row. c = PInf \<or> Fin 1 \<le> c"
    and "row \<in> set (grid env)" "c \<in> set row"
  then have "c = PInf \<or> Fin 1 \<le> c"
    by blast
  moreover have "Fin 0 \<le> Fin 1"
    by simp
  ultimately show "c = PInf \<or> Fin 0 \<le> c"
    using order_trans by blast
qed

text \<open>
  Claim C1: on a rectangular grid whose finite costs are all at least 1, with start and
  goal in bounds and passable, if some path leads from start to goal then
  \<open>a_star_search\<close> returns a path from start to goal whose cost is the returned cost
  and is the least among all such paths, and \<open>uniform_cost_search\<close> returns a path of
  that same cost.
\<close>

theorem searches_return_least_cost:
  assumes "rectangular env" "costs_at_least 1 env"
    and "is_valid env start" "is_passable env start" "is_valid env goal" "is_passable env goal"
    and "route env start goal some_path"
  shows "\<exists>path c n path' n'.
      a_star_search env start goal = Some (Some path, c, n)
      \<and> route env start goal path \<and> path_cost env path = c
      \<and> (\<forall>other. route env start goal other \<longrightarrow> c \<le> path_cost env other)
      \<and> uniform_cost_search env start goal = Some (Some path', c, n')
      \<and> route env start goal path' \<and> path_cost env path' = c"
proof -
  note z = costs_at_least_mono[OF assms(2)]
  from astar_terminates[OF assms(1) z, of start goal] obtain po c n
    where a: "a_star_search env start goal = Some (po, c, n)"
    by (metis prod_cases3)
  note ao = astar_result_optimal[OF assms(1,2) a]
  from ao assms(7) obtain path where po: "po = Some path"
    by (cases po) auto
  from a po have a': "a_star_search env start goal = Some (Some path, c, n)"
    by simp
  from astar_returns_route[OF a'] have ar: "route env start goal path" "path_cost env path = c"
    by simp_all
  from ao po have amin: "\<forall>other. route env start goal other \<longrightarrow> c \<le> path_cost env other"
    by simp
  from ucs_terminates[OF assms(1) z, of start goal] obtain po' c' n'
    where u: "uniform_cost_search env start goal = Some (po', c', n')"
    by (metis prod_cases3)
  note uo = ucs_result_optimal[OF assms(1,2) u]
  from uo assms(7) obtain path' where po': "po' = Some path'"
    by (cases po') auto
  from u po' have u': "uniform_cost_search env start goal = Some (Some path', c', n')"
    by simp
  from ucs_returns_route[OF u'] have ur: "route env start goal path'" "path_cost env path' = c'"
    by simp_all
  from uo po' have umin: "\<forall>other. route env start goal other \<longrightarrow> c' \<le> path_cost env other"
    by simp
  from amin ur have "c \<le> c'"
    by blast
  moreover from umin ar have "c' \<le> c"
    by blast
  ultimately have "c' = c"
    by simp
  with a' ar amin u' ur show ?thesis
    by blast
qed

theorem searches_return_least_cost_witness:
  "\<exists>path c n path' n'.
      a_star_search env_open (0, 0) (2, 2) = Some (Some path, c, n)
      \<and> route env_open (0, 0) (2, 2) path \<and> path_cost env_open path = c
      \<and> (\<forall>other. route env_open (0, 0) (2, 2) other \<longrightarrow> c \<le> path_cost env_open other)
      \<and> uniform_cost_search env_open (0, 0) (2, 2) = Some (Some path', c, n')
      \<and> route env_open (0, 0) (2, 2) path' \<and> path_cost env_open path' = c"
proof -
  have r: "rectangular env_open" "costs_at_least 1 env_open"
    by (simp_all add: rectangular_def costs_at_least_def env_open_def)
  have v: "is_valid env_open (0, 0)" "is_passable env_open (0, 0)"
    "is_valid env_open (2, 2)" "is_passable env_open (2, 2)"
    by (simp_all add: env_open_def)
  have p: "route env_open (0, 0) (2, 2) [(0, 0), (0, 1), (0, 2), (1, 2), (2, 2)]"
    by (simp add: route_def env_open_def)
  from searches_return_least_cost [OF r v p] show ?thesis .
qed

end
